theory Spec2Isabelle
  imports Main "HOL-Library.Multiset"
begin

section \<open>The image upload component: data model\<close>

text \<open>
  The model follows \<^verbatim>\<open>ImageUpload\<close> in
  \<^verbatim>\<open>src/components/image-form/image-crop-dialog.tsx\<close> (the second module of that
  file, lines 264--776). A handler of the component becomes a function from the props, the
  component state and the environment it reads to the list of effects it performs, in
  order. Field names that clash with an Isabelle keyword or a HOL constant carry a prime
  (\<open>id'\<close>, \<open>file'\<close>, \<open>size'\<close>).

  Strings are byte strings; numbers that the component reads (\<open>File.size\<close>,
  \<open>maxFileSize\<close>, \<open>maxImages\<close>, \<open>Date.now()\<close>) are taken to be integers in the
  range where a JavaScript number is exact.
\<close>

text \<open>The browser's \<^verbatim>\<open>File\<close>, as far as the component reads it.\<close>

record File =
  name :: string
  type :: string
  size' :: nat

text \<open>\<^verbatim>\<open>interface ImageItem\<close>, lines 275--282.\<close>

record ImageItem =
  id' :: string
  url :: string
  file' :: "File option"

text \<open>
  The props type the \<open>images\<close> array as \<^verbatim>\<open>ImageItem[]\<close>. The arrays the handlers
  build can hold more at run time when an index is out of range: \<^verbatim>\<open>undefined\<close> (what
  destructuring an empty \<^verbatim>\<open>splice\<close> result gives, and what an array extended by an
  assignment past its end reads in between) and an object with a \<^verbatim>\<open>url\<close> only (the
  spread of \<^verbatim>\<open>undefined\<close> at line 566). A slot of an array handed to
  \<^verbatim>\<open>onChange\<close> is therefore an \<open>elem\<close>.
\<close>

datatype elem = Item ImageItem | Undefined | UrlOnly string

text \<open>The argument of \<^verbatim>\<open>toast\<close>; \<open>variant\<close> is absent or \<^verbatim>\<open>"destructive"\<close>.\<close>

record toast_args =
  title :: string
  description :: string
  variant :: "string option"

text \<open>
  What a handler does to the outside, in order: calls to the \<^verbatim>\<open>onChange\<close> prop and to
  \<^verbatim>\<open>toast\<close>, state setters, and the reset of the file input at lines 490--492
  (performed when the input's ref is attached).
\<close>

datatype effect =
    OnChange "elem list"
  | Toast toast_args
  | SetUploading bool
  | SetDraggedIndex "nat option"
  | SetDragOverIndex "nat option"
  | ResetFileInput

text \<open>
  What an awaited promise rejects with: an \<^verbatim>\<open>Error\<close> instance with its message, or any
  other value (the \<^verbatim>\<open>ProgressEvent\<close> of \<^verbatim>\<open>reader.onerror\<close>, for one). An awaited
  promise resolves, rejects, or never settles.
\<close>

datatype rejection = ErrorObj string | NonError

datatype 'a outcome = Resolved 'a | Rejected rejection | Pending

text \<open>
  The \<^verbatim>\<open>TypeError\<close> of calling a method on \<^verbatim>\<open>undefined\<close> or reading a property
  of it.
\<close>

datatype exn = TypeError

text \<open>
  How a handler ends: it returns (an async handler's promise resolves), its promise rejects
  with what an awaited promise rejected with, it throws a \<^verbatim>\<open>TypeError\<close> of its own,
  or it waits for ever on a promise that never settles.
\<close>

datatype completion = Done | Failed rejection | TypeErrorThrown | NeverSettles

datatype Blob = Blob "nat list"

text \<open>The second argument of \<^verbatim>\<open>handleCropComplete\<close>: \<^verbatim>\<open>Blob | string\<close>.\<close>

datatype cropped = CroppedString string | CroppedBlob Blob

text \<open>
  \<^verbatim>\<open>interface ImageUploadProps\<close>, lines 284--318, without the props that only the
  rendering reads. The optional callbacks return promises; \<open>onUpload\<close> is called once
  per accepted file, and its first argument here is the number of earlier calls in the same
  run of \<^verbatim>\<open>handleFiles\<close>, so that a callback with a state of its own is covered.
\<close>

record props =
  images :: "ImageItem list"
  maxImages :: int
  allowedTypes :: "string list"
  maxFileSize :: int
  enableReorder :: bool
  onUpload :: "(nat \<Rightarrow> File \<Rightarrow> string outcome) option"
  onCropComplete :: "(string \<Rightarrow> Blob \<Rightarrow> string outcome) option"

text \<open>
  What the handlers read from the browser. \<open>fileToDataUrl\<close> is the function of lines
  399--406 (a \<^verbatim>\<open>FileReader\<close> promise; the number counts earlier reads in the same run).
  \<open>Date_now k\<close> and \<open>Math_random_toString36 k\<close> are \<^verbatim>\<open>Date.now()\<close> and
  \<^verbatim>\<open>Math.random().toString(36)\<close> at the \<open>k\<close>-th call of \<^verbatim>\<open>generateId\<close> in a
  run. \<open>readAsDataURL\<close> is the read of the cropped blob at lines 558--562, which has no
  \<^verbatim>\<open>onerror\<close> handler: \<open>None\<close> is a read that fails, and the promise then never
  settles.
\<close>

record env =
  fileToDataUrl :: "nat \<Rightarrow> File \<Rightarrow> string outcome"
  Date_now :: "nat \<Rightarrow> nat"
  Math_random_toString36 :: "nat \<Rightarrow> string"
  readAsDataURL :: "Blob \<Rightarrow> string option"


section \<open>JavaScript library functions\<close>

text \<open>
  An integer in a template literal: \<open>decimal\<close> gives the digits of a number that is not
  negative, \<open>number_toString\<close> puts the sign in front.
\<close>

definition digit :: "nat \<Rightarrow> char" where
  "digit d = ''0123456789'' ! d"

fun decimal :: "nat \<Rightarrow> string" where
  "decimal n = (if n < 10 then [digit n] else decimal (n div 10) @ [digit (n mod 10)])"

declare decimal.simps [simp del]

definition number_toString :: "int \<Rightarrow> string" where
  "number_toString i = (if 0 \<le> i then decimal (nat i) else CHR ''-'' # decimal (nat (- i)))"

text \<open>
  \<^verbatim>\<open>(maxFileSize / (1024 * 1024)).toFixed(0)\<close>: the sign, then the absolute value
  rounded to the nearest integer, a tie going up.
\<close>

definition toFixed0_MB :: "int \<Rightarrow> string" where
  "toFixed0_MB m =
     (if m < 0 then ''-'' else '''') @ decimal ((nat \<bar>m\<bar> + 524288) div 1048576)"

text \<open>\<^verbatim>\<open>s.split("/")\<close>.\<close>

fun split_slash :: "string \<Rightarrow> string list" where
  "split_slash [] = [[]]"
| "split_slash (c # cs) =
     (if c = CHR ''/'' then [] # split_slash cs
      else (case split_slash cs of s # ss \<Rightarrow> (c # s) # ss | [] \<Rightarrow> [[c]]))"

text \<open>\<^verbatim>\<open>s.toUpperCase()\<close>, on ASCII letters.\<close>

definition toUpperCase :: "string \<Rightarrow> string" where
  "toUpperCase s =
     map (\<lambda>c. if 97 \<le> (of_char c :: nat) \<and> (of_char c :: nat) \<le> 122
              then char_of ((of_char c :: nat) - 32) else c) s"

text \<open>\<^verbatim>\<open>xs.join(sep)\<close>.\<close>

fun join :: "string \<Rightarrow> string list \<Rightarrow> string" where
  "join sep [] = []"
| "join sep [x] = x"
| "join sep (x # y # ys) = x @ sep @ join sep (y # ys)"

text \<open>
  \<^verbatim>\<open>xs.splice(start, deleteCount, ...items)\<close> for a \<open>start\<close> that is not negative:
  the removed elements and the array afterwards. \<open>take\<close> and \<open>drop\<close> clamp
  \<open>start\<close> and \<open>deleteCount\<close> to the array as \<^verbatim>\<open>splice\<close> does.
\<close>

definition splice :: "'a list \<Rightarrow> nat \<Rightarrow> nat \<Rightarrow> 'a list \<Rightarrow> 'a list \<times> 'a list" where
  "splice xs start deleteCount items =
     (take deleteCount (drop start xs), take start xs @ items @ drop (start + deleteCount) xs)"

text \<open>\<^verbatim>\<open>const [x] = xs\<close>.\<close>

definition first_of :: "elem list \<Rightarrow> elem" where
  "first_of xs = (case xs of [] \<Rightarrow> Undefined | x # _ \<Rightarrow> x)"

text \<open>\<^verbatim>\<open>xs.filter((_, i) => p(i))\<close>.\<close>

definition filter_index :: "(nat \<Rightarrow> bool) \<Rightarrow> 'a list \<Rightarrow> 'a list" where
  "filter_index p xs = map fst (filter (\<lambda>(x, i). p i) (zip xs [0..<length xs]))"

text \<open>\<^verbatim>\<open>xs[i]\<close>: \<^verbatim>\<open>undefined\<close> out of range.\<close>

definition at_index :: "'a list \<Rightarrow> nat \<Rightarrow> 'a option" where
  "at_index xs i = (if i < length xs then Some (xs ! i) else None)"

text \<open>\<^verbatim>\<open>xs[i] = v\<close>: past the end, the array is extended.\<close>

definition array_set :: "elem list \<Rightarrow> nat \<Rightarrow> elem \<Rightarrow> elem list" where
  "array_set xs i v =
     (if i < length xs then xs[i := v] else xs @ replicate (i - length xs) Undefined @ [v])"


section \<open>The handlers\<close>

text \<open>
  \<^verbatim>\<open>generateId\<close>, line 381:
  \<^verbatim>\<open>`img_${Date.now()}_${Math.random().toString(36).substr(2, 9)}`\<close>.
\<close>

definition generateId :: "env \<Rightarrow> nat \<Rightarrow> string" where
  "generateId e k =
     ''img_'' @ decimal (Date_now e k) @ ''_'' @ take 9 (drop 2 (Math_random_toString36 e k))"

text \<open>
  \<^verbatim>\<open>allowedTypes.map((t) => t.split("/")[1].toUpperCase()).join(", ")\<close>, evaluated by
  \<^verbatim>\<open>validateFile\<close> (lines 386--388) and by every render of the component (lines
  616--618). An entry without a \<^verbatim>\<open>/\<close> has no second part, and the call of
  \<^verbatim>\<open>toUpperCase\<close> on \<^verbatim>\<open>undefined\<close> throws.
\<close>

definition format_of :: "string \<Rightarrow> exn + string" where
  "format_of t = (case split_slash t of _ # s # _ \<Rightarrow> Inr (toUpperCase s) | _ \<Rightarrow> Inl TypeError)"

fun formats_of :: "string list \<Rightarrow> exn + string list" where
  "formats_of [] = Inr []"
| "formats_of (t # ts) =
     (case format_of t of
        Inl e \<Rightarrow> Inl e
      | Inr f \<Rightarrow> (case formats_of ts of Inl e \<Rightarrow> Inl e | Inr fs \<Rightarrow> Inr (f # fs)))"

definition formatsList :: "string list \<Rightarrow> exn + string" where
  "formatsList ts = (case formats_of ts of Inl e \<Rightarrow> Inl e | Inr fs \<Rightarrow> Inr (join '', '' fs))"

text \<open>\<^verbatim>\<open>validateFile\<close>, lines 384--396: \<open>Inr None\<close> is \<^verbatim>\<open>null\<close>.\<close>

definition validateFile :: "props \<Rightarrow> File \<Rightarrow> exn + string option" where
  "validateFile p f =
     (if type f \<notin> set (allowedTypes p) then
        (case formatsList (allowedTypes p) of
           Inl e \<Rightarrow> Inl e
         | Inr formats \<Rightarrow>
             Inr (Some (''File '' @ name f @ '': invalid format. Allowed: '' @ formats)))
      else if int (size' f) > maxFileSize p then
        Inr (Some (''File '' @ name f @ '': exceeds size limit. Maximum ''
                   @ toFixed0_MB (maxFileSize p) @ ''MB''))
      else Inr None)"

text \<open>
  The \<^verbatim>\<open>forEach\<close> of lines 429--436, from the arrays \<open>errors\<close> and
  \<open>validFiles\<close> so far. An exception of \<^verbatim>\<open>validateFile\<close> ends it.
\<close>

fun validate_all :: "props \<Rightarrow> File list \<Rightarrow> string list \<Rightarrow> File list \<Rightarrow> exn + string list \<times> File list" where
  "validate_all p [] errors validFiles = Inr (errors, validFiles)"
| "validate_all p (f # fs) errors validFiles =
     (case validateFile p f of
        Inl e \<Rightarrow> Inl e
      | Inr (Some error) \<Rightarrow> validate_all p fs (errors @ [error]) validFiles
      | Inr None \<Rightarrow> validate_all p fs errors (validFiles @ [f]))"

text \<open>Lines 454--462: the upload callback when there is one, the data URL otherwise.\<close>

definition resolve_url :: "props \<Rightarrow> env \<Rightarrow> nat \<Rightarrow> File \<Rightarrow> string outcome" where
  "resolve_url p e k f = (case onUpload p of Some upload \<Rightarrow> upload k f | None \<Rightarrow> fileToDataUrl e k f)"

text \<open>
  The \<^verbatim>\<open>for\<close> loop of lines 453--469, at its \<open>k\<close>-th file with \<open>newImages\<close> so
  far. A rejected \<^verbatim>\<open>await\<close> leaves the loop for the \<^verbatim>\<open>catch\<close>; one that never
  settles stops the handler there.
\<close>

fun process_files :: "props \<Rightarrow> env \<Rightarrow> nat \<Rightarrow> File list \<Rightarrow> ImageItem list \<Rightarrow> ImageItem list outcome" where
  "process_files p e k [] newImages = Resolved newImages"
| "process_files p e k (f # fs) newImages =
     (case resolve_url p e k f of
        Resolved u \<Rightarrow>
          process_files p e (Suc k) fs
            (newImages @ [\<lparr>id' = generateId e k, url = u, file' = Some f\<rparr>])
      | Rejected r \<Rightarrow> Rejected r
      | Pending \<Rightarrow> Pending)"

text \<open>Line 478: the message of the \<^verbatim>\<open>catch\<close>.\<close>

definition catch_message :: "rejection \<Rightarrow> string" where
  "catch_message r = (case r of ErrorObj m \<Rightarrow> m | NonError \<Rightarrow> ''Failed to process images'')"

text \<open>Lines 438--445: the toast of the validation errors, when there are any.\<close>

definition show_errors :: "string list \<Rightarrow> effect list" where
  "show_errors errors =
     (if errors \<noteq> [] then
        [Toast \<lparr>title = ''Validation Errors'',
                description = join [CHR 0x0A] errors,
                variant = Some ''destructive''\<rparr>]
      else [])"

text \<open>
  \<^verbatim>\<open>handleFiles\<close>, lines 409--495. \<open>None\<close> is \<^verbatim>\<open>null\<close>. The calls of
  \<^verbatim>\<open>onChange\<close> and \<^verbatim>\<open>toast\<close> are taken to return normally.
\<close>

definition handleFiles :: "props \<Rightarrow> env \<Rightarrow> File list option \<Rightarrow> effect list \<times> completion" where
  "handleFiles p e files =
     (case files of
        None \<Rightarrow> ([], Done)
      | Some fileArray \<Rightarrow>
          if fileArray = [] then ([], Done)
          else if int (length (images p)) + int (length fileArray) > maxImages p then
            ([Toast \<lparr>title = ''Error'',
                     description = ''Maximum '' @ number_toString (maxImages p) @ '' images allowed'',
                     variant = Some ''destructive''\<rparr>], Done)
          else
            (case validate_all p fileArray [] [] of
               Inl TypeError \<Rightarrow> ([], TypeErrorThrown)
             | Inr (errors, validFiles) \<Rightarrow>
                 if validFiles \<noteq> [] then
                   (case process_files p e 0 validFiles [] of
                      Resolved newImages \<Rightarrow>
                        (show_errors errors @
                         [SetUploading True,
                          OnChange (map Item (images p @ newImages)),
                          Toast \<lparr>title = ''Success'',
                                 description = decimal (length newImages) @ '' image(s) added'',
                                 variant = None\<rparr>,
                          SetUploading False,
                          ResetFileInput], Done)
                    | Rejected r \<Rightarrow>
                        (show_errors errors @
                         [SetUploading True,
                          Toast \<lparr>title = ''Error'',
                                 description = catch_message r,
                                 variant = Some ''destructive''\<rparr>,
                          SetUploading False,
                          ResetFileInput], Done)
                    | Pending \<Rightarrow> (show_errors errors @ [SetUploading True], NeverSettles))
                 else (show_errors errors @ [ResetFileInput], Done)))"

text \<open>
  The files of a selection that \<^verbatim>\<open>validateFile\<close> accepts, and the messages it returns
  for the others, in the order of the selection.
\<close>

definition accepted :: "props \<Rightarrow> File \<Rightarrow> bool" where
  "accepted p f = (validateFile p f = Inr None)"

fun rejection_messages :: "props \<Rightarrow> File list \<Rightarrow> string list" where
  "rejection_messages p [] = []"
| "rejection_messages p (f # fs) =
     (case validateFile p f of
        Inr (Some m) \<Rightarrow> m # rejection_messages p fs
      | _ \<Rightarrow> rejection_messages p fs)"

text \<open>\<^verbatim>\<open>handleRemoveImage\<close>, lines 526--529.\<close>

definition handleRemoveImage :: "props \<Rightarrow> nat \<Rightarrow> effect list" where
  "handleRemoveImage p index =
     [OnChange (map Item (filter_index (\<lambda>i. i \<noteq> index) (images p)))]"

text \<open>\<^verbatim>\<open>handleSetAsCover\<close>, lines 532--542.\<close>

definition handleSetAsCover :: "props \<Rightarrow> nat \<Rightarrow> effect list" where
  "handleSetAsCover p index =
     (if index = 0 then []
      else
        (case splice (map Item (images p)) index 1 [] of
           (removed, newImages) \<Rightarrow>
             [OnChange (first_of removed # newImages),
              Toast \<lparr>title = ''Cover Updated'', description = ''Image set as cover'',
                     variant = None\<rparr>]))"

text \<open>
  \<^verbatim>\<open>handleCropComplete\<close>, lines 545--568. \<open>crop_url\<close> is lines 548--563, the
  value of \<^verbatim>\<open>newUrl\<close> (reading \<^verbatim>\<open>image.id\<close> throws when \<^verbatim>\<open>image\<close> is
  \<^verbatim>\<open>undefined\<close>); \<open>commit_crop\<close> is lines 565--567, where the spread of an
  \<^verbatim>\<open>image\<close> that is \<^verbatim>\<open>undefined\<close> leaves the \<^verbatim>\<open>url\<close> alone.
\<close>

definition commit_crop :: "props \<Rightarrow> nat \<Rightarrow> string \<Rightarrow> effect list \<times> completion" where
  "commit_crop p index newUrl =
     ([OnChange
         (array_set (map Item (images p)) index
            (case at_index (images p) index of
               Some img \<Rightarrow> Item (img\<lparr>url := newUrl\<rparr>)
             | None \<Rightarrow> UrlOnly newUrl))], Done)"

definition crop_url :: "props \<Rightarrow> env \<Rightarrow> nat \<Rightarrow> cropped \<Rightarrow> exn + string outcome" where
  "crop_url p e index croppedImage =
     (case croppedImage of
        CroppedString s \<Rightarrow> Inr (Resolved s)
      | CroppedBlob b \<Rightarrow>
          (case onCropComplete p of
             Some upload \<Rightarrow>
               (case at_index (images p) index of
                  None \<Rightarrow> Inl TypeError
                | Some img \<Rightarrow> Inr (upload (id' img) b))
           | None \<Rightarrow>
               (case readAsDataURL e b of
                  Some u \<Rightarrow> Inr (Resolved u)
                | None \<Rightarrow> Inr Pending)))"

definition handleCropComplete :: "props \<Rightarrow> env \<Rightarrow> nat \<Rightarrow> cropped \<Rightarrow> effect list \<times> completion" where
  "handleCropComplete p e index croppedImage =
     (case crop_url p e index croppedImage of
        Inl TypeError \<Rightarrow> ([], TypeErrorThrown)
      | Inr (Resolved newUrl) \<Rightarrow> commit_crop p index newUrl
      | Inr (Rejected r) \<Rightarrow> ([], Failed r)
      | Inr Pending \<Rightarrow> ([], NeverSettles))"

text \<open>
  \<^verbatim>\<open>handleDragEnd\<close>, lines 584--600, from the state \<open>draggedIndex\<close> and
  \<open>dragOverIndex\<close> (\<open>None\<close> is \<^verbatim>\<open>null\<close>).
\<close>

definition handleDragEnd :: "props \<Rightarrow> nat option \<Rightarrow> nat option \<Rightarrow> effect list" where
  "handleDragEnd p draggedIndex dragOverIndex =
     (case (enableReorder p, draggedIndex, dragOverIndex) of
        (True, Some dragged, Some over) \<Rightarrow>
          (if dragged \<noteq> over then
             (case splice (map Item (images p)) dragged 1 [] of
                (removed, newImages) \<Rightarrow>
                  [OnChange (snd (splice newImages over 0 [first_of removed]))])
           else [])
          @ [SetDraggedIndex None, SetDragOverIndex None]
      | _ \<Rightarrow> [SetDraggedIndex None, SetDragOverIndex None])"

text \<open>The arrays a run handed to \<^verbatim>\<open>onChange\<close>, in order.\<close>

fun snapshots :: "effect list \<Rightarrow> elem list list" where
  "snapshots [] = []"
| "snapshots (OnChange xs # es) = xs # snapshots es"
| "snapshots (_ # es) = snapshots es"

text \<open>The toasts of a run, in order.\<close>

fun toasts :: "effect list \<Rightarrow> toast_args list" where
  "toasts [] = []"
| "toasts (Toast t # es) = t # toasts es"
| "toasts (_ # es) = toasts es"


text \<open>
  The owner of the list stores each array it is handed (\<^verbatim>\<open>onChange={setImages}\<close> on
  the demo page and in the README), so the list after a run is the last array handed to
  \<^verbatim>\<open>onChange\<close>, and the list before when there was no call.
\<close>

definition next_images :: "props \<Rightarrow> effect list \<Rightarrow> elem list" where
  "next_images p es =
     (case snapshots es of [] \<Rightarrow> map Item (images p) | s # ss \<Rightarrow> last (s # ss))"


section \<open>Defaults and sample data\<close>

text \<open>Lines 320--327 and the defaults of lines 357--372.\<close>

definition DEFAULT_ALLOWED_TYPES :: "string list" where
  "DEFAULT_ALLOWED_TYPES =
     [''image/jpeg'', ''image/jpg'', ''image/png'', ''image/webp'', ''image/gif'']"

definition DEFAULT_MAX_FILE_SIZE :: int where
  "DEFAULT_MAX_FILE_SIZE = 5 * 1024 * 1024"

definition default_props :: "ImageItem list \<Rightarrow> props" where
  "default_props imgs =
     \<lparr>images = imgs, maxImages = 10, allowedTypes = DEFAULT_ALLOWED_TYPES,
      maxFileSize = DEFAULT_MAX_FILE_SIZE, enableReorder = True,
      onUpload = None, onCropComplete = None\<rparr>"

definition photo1 :: File where
  "photo1 = \<lparr>name = ''one.jpg'', type = ''image/jpeg'', size' = 1000\<rparr>"

definition photo2 :: File where
  "photo2 = \<lparr>name = ''two.jpg'', type = ''image/jpeg'', size' = 2000\<rparr>"

definition textfile :: File where
  "textfile = \<lparr>name = ''notes.txt'', type = ''text/plain'', size' = 10\<rparr>"

definition poster :: File where
  "poster = \<lparr>name = ''poster.png'', type = ''image/png'', size' = 6000000\<rparr>"

definition itemA :: ImageItem where
  "itemA = \<lparr>id' = ''a'', url = ''https://example.org/a.jpg'', file' = None\<rparr>"

definition itemB :: ImageItem where
  "itemB = \<lparr>id' = ''b'', url = ''https://example.org/b.jpg'', file' = None\<rparr>"

definition itemC :: ImageItem where
  "itemC = \<lparr>id' = ''c'', url = ''https://example.org/c.jpg'', file' = None\<rparr>"

text \<open>
  A browser in which every read succeeds and the clock advances by a millisecond between
  two calls of \<^verbatim>\<open>generateId\<close>.
\<close>

definition sample_env :: env where
  "sample_env =
     \<lparr>fileToDataUrl = (\<lambda>k f. Resolved (''data:'' @ type f @ '';base64,'' @ name f)),
      Date_now = (\<lambda>k. 1700000000000 + k),
      Math_random_toString36 = (\<lambda>k. ''0.4fzyo82mvyr''),
      readAsDataURL = (\<lambda>b. Some ''data:image/jpeg;base64,crop'')\<rparr>"

text \<open>
  A browser in which two calls of \<^verbatim>\<open>generateId\<close> fall into the same millisecond
  and \<^verbatim>\<open>Math.random()\<close> gives two different numbers whose base-36 digits differ
  after the ninth only.
\<close>

definition same_tick_env :: env where
  "same_tick_env =
     \<lparr>fileToDataUrl = (\<lambda>k f. Resolved (''data:'' @ type f @ '';base64,'' @ name f)),
      Date_now = (\<lambda>k. 1700000000000),
      Math_random_toString36 = (\<lambda>k. if k = 0 then ''0.4fzyo82mvyr'' else ''0.4fzyo82mvzs''),
      readAsDataURL = (\<lambda>b. Some ''data:image/jpeg;base64,crop'')\<rparr>"

text \<open>An upload callback that fails at its second call.\<close>

definition second_upload_fails :: "nat \<Rightarrow> File \<Rightarrow> string outcome" where
  "second_upload_fails k f =
     (if k = 1 then Rejected (ErrorObj ''upload failed'')
      else Resolved (''https://cdn.example.org/'' @ name f))"


section \<open>The sample props\<close>

lemma default_props_simps:
  "images (default_props L) = L"
  "maxImages (default_props L) = 10"
  "allowedTypes (default_props L) = DEFAULT_ALLOWED_TYPES"
  "maxFileSize (default_props L) = DEFAULT_MAX_FILE_SIZE"
  "enableReorder (default_props L)"
  "onUpload (default_props L) = None"
  "onCropComplete (default_props L) = None"
  "(default_props L)\<lparr>images := L'\<rparr> = default_props L'"
  by (simp_all add: default_props_def)


section \<open>Lists: removing and inserting at an index\<close>

lemma filter_index_neq:
  "filter_index (\<lambda>i. i \<noteq> k) xs = take k xs @ drop (Suc k) xs"
proof (induction xs arbitrary: k rule: rev_induct)
  case Nil
  show ?case by (simp add: filter_index_def)
next
  case (snoc x xs)
  have step: "filter_index (\<lambda>i. i \<noteq> k) (xs @ [x]) =
      filter_index (\<lambda>i. i \<noteq> k) xs @ (if length xs \<noteq> k then [x] else [])"
    by (simp add: filter_index_def)
  show ?case
  proof (cases "k < length xs")
    case True
    then show ?thesis using snoc.IH [of k] step by simp
  next
    case False
    then show ?thesis using snoc.IH [of k] step by (cases "k = length xs") simp_all
  qed
qed

lemma splice_one:
  "i < length xs \<Longrightarrow> splice xs i (Suc 0) [] = ([xs ! i], take i xs @ drop (Suc i) xs)"
  by (simp add: splice_def take_Suc_conv_app_nth hd_drop_conv_nth take_Suc)

lemma splice_insert: "snd (splice ys j 0 [v]) = take j ys @ v # drop j ys"
  by (simp add: splice_def)

lemma splice_insert_map:
  "snd (splice (map f ys) j 0 [f v]) = map f (take j ys @ v # drop j ys)"
  by (simp add: splice_def take_map drop_map)

lemma remove_insert_same:
  "i < length xs \<Longrightarrow> take i (take i xs @ drop (Suc i) xs) @ xs ! i # drop i (take i xs @ drop (Suc i) xs) = xs"
  by (simp add: min_def id_take_nth_drop [symmetric])

lemma insert_remove:
  "j \<le> length ys \<Longrightarrow> take j (take j ys @ v # drop j ys) @ drop (Suc j) (take j ys @ v # drop j ys) = ys"
  by (simp add: min_def)

lemma insert_nth: "j \<le> length ys \<Longrightarrow> (take j ys @ v # drop j ys) ! j = v"
  by (simp add: nth_append min_def)

lemma mset_remove_at:
  "i < length xs \<Longrightarrow> mset (take i xs @ drop (Suc i) xs) + {#xs ! i#} = mset xs"
proof -
  assume "i < length xs"
  then have "xs = take i xs @ xs ! i # drop (Suc i) xs" by (rule id_take_nth_drop)
  then have "mset xs = mset (take i xs @ xs ! i # drop (Suc i) xs)" by simp
  then show ?thesis by simp
qed

lemma mset_insert_at: "mset (take j ys @ v # drop j ys) = mset ys + {#v#}"
proof -
  have "mset ys = mset (take j ys @ drop j ys)" by simp
  then show ?thesis by (simp del: append_take_drop_id)
qed


section \<open>Removing an image\<close>

text \<open>
  Claim C9. For every list \<open>L\<close> and every valid index \<open>i\<close>, removing the image at
  \<open>i\<close> hands \<^verbatim>\<open>onChange\<close> one list \<open>L'\<close>: \<open>L\<close> without its element at
  \<open>i\<close>. Its length is \<open>|L| - 1\<close>, it holds exactly the elements of \<open>L\<close> minus
  that one, the elements before \<open>i\<close> keep their positions and those after it move down
  by one, so the order of the remaining elements is unchanged.
\<close>

theorem handleRemoveImage_valid_index:
  assumes "i < length (images p)"
  shows "\<exists>L'. handleRemoveImage p i = [OnChange (map Item L')]
     \<and> L' = take i (images p) @ drop (Suc i) (images p)
     \<and> length L' = length (images p) - 1
     \<and> mset L' + {#images p ! i#} = mset (images p)
     \<and> (\<forall>k<i. L' ! k = images p ! k)
     \<and> (\<forall>k. i \<le> k \<and> k < length L' \<longrightarrow> L' ! k = images p ! Suc k)"
proof -
  let ?L = "images p"
  let ?L' = "take i ?L @ drop (Suc i) ?L"
  have eff: "handleRemoveImage p i = [OnChange (map Item ?L')]"
    by (simp add: handleRemoveImage_def filter_index_neq)
  have len: "length ?L' = length ?L - 1" using assms by simp
  have ms: "mset ?L' + {#?L ! i#} = mset ?L" using assms by (rule mset_remove_at)
  have before: "\<forall>k<i. ?L' ! k = ?L ! k" using assms by (simp add: nth_append)
  have after: "\<forall>k. i \<le> k \<and> k < length ?L' \<longrightarrow> ?L' ! k = ?L ! Suc k"
    using assms by (auto simp: nth_append min_def)
  from eff len ms before after show ?thesis by blast
qed

theorem handleRemoveImage_valid_index_witness:
  "(1::nat) < length (images (default_props [itemA, itemB, itemC]))
   \<and> handleRemoveImage (default_props [itemA, itemB, itemC]) 1
       = [OnChange [Item itemA, Item itemC]]"
proof -
  have h: "(1::nat) < length (images (default_props [itemA, itemB, itemC]))"
    by (simp add: default_props_simps)
  from handleRemoveImage_valid_index [OF h] show ?thesis
    using h by (auto simp: default_props_simps)
qed


section \<open>Promoting an image to cover\<close>

lemma handleSetAsCover_valid:
  assumes "0 < i" "i < length (images p)"
  shows "handleSetAsCover p i =
     [OnChange (map Item (images p ! i # take i (images p) @ drop (Suc i) (images p))),
      Toast \<lparr>title = ''Cover Updated'', description = ''Image set as cover'', variant = None\<rparr>]"
  using assms by (simp add: handleSetAsCover_def splice_one first_of_def take_map drop_map)

text \<open>
  Claim C4. Promoting the image at index 0 does nothing, so the list stays as it is. For a
  valid index \<open>i > 0\<close> the handler hands \<^verbatim>\<open>onChange\<close> the list with the element
  at \<open>i\<close> in front, followed by the other elements in their old order. For a list of
  three, promoting index 2 gives \<open>[L[2], L[0], L[1]]\<close>.
\<close>

theorem handleSetAsCover_moves_to_front:
  "handleSetAsCover p 0 = []
   \<and> next_images p (handleSetAsCover p 0) = map Item (images p)
   \<and> (0 < i \<and> i < length (images p) \<longrightarrow>
        handleSetAsCover p i =
          [OnChange (map Item (images p ! i # take i (images p) @ drop (Suc i) (images p))),
           Toast \<lparr>title = ''Cover Updated'', description = ''Image set as cover'', variant = None\<rparr>]
        \<and> next_images p (handleSetAsCover p i) =
            map Item (images p ! i # take i (images p) @ drop (Suc i) (images p)))
   \<and> (length (images p) = 3 \<longrightarrow>
        next_images p (handleSetAsCover p 2) =
          map Item [images p ! 2, images p ! 0, images p ! 1])"
proof -
  have zero: "handleSetAsCover p 0 = []" by (simp add: handleSetAsCover_def)
  have keep: "next_images p (handleSetAsCover p 0) = map Item (images p)"
    by (simp add: zero next_images_def)
  have move: "0 < i \<and> i < length (images p) \<longrightarrow>
        handleSetAsCover p i =
          [OnChange (map Item (images p ! i # take i (images p) @ drop (Suc i) (images p))),
           Toast \<lparr>title = ''Cover Updated'', description = ''Image set as cover'', variant = None\<rparr>]
        \<and> next_images p (handleSetAsCover p i) =
            map Item (images p ! i # take i (images p) @ drop (Suc i) (images p))"
    by (simp add: handleSetAsCover_valid next_images_def)
  have three: "length (images p) = 3 \<longrightarrow>
        next_images p (handleSetAsCover p 2) =
          map Item [images p ! 2, images p ! 0, images p ! 1]"
  proof
    assume len: "length (images p) = 3"
    then obtain a b c where abc: "images p = [a, b, c]"
      by (auto simp: length_Suc_conv eval_nat_numeral)
    have "handleSetAsCover p 2 =
       [OnChange (map Item (images p ! 2 # take 2 (images p) @ drop (Suc 2) (images p))),
        Toast \<lparr>title = ''Cover Updated'', description = ''Image set as cover'', variant = None\<rparr>]"
      using len by (intro handleSetAsCover_valid) simp_all
    then show "next_images p (handleSetAsCover p 2) =
          map Item [images p ! 2, images p ! 0, images p ! 1]"
      by (simp add: next_images_def abc)
  qed
  from zero keep move three show ?thesis by blast
qed

theorem handleSetAsCover_moves_to_front_witness:
  "(0::nat) < 2 \<and> 2 < length (images (default_props [itemA, itemB, itemC]))
   \<and> length (images (default_props [itemA, itemB, itemC])) = 3
   \<and> next_images (default_props [itemA, itemB, itemC])
         (handleSetAsCover (default_props [itemA, itemB, itemC]) 2)
       = [Item itemC, Item itemA, Item itemB]"
proof -
  have h: "length (images (default_props [itemA, itemB, itemC])) = 3"
    by (simp add: default_props_simps)
  from handleSetAsCover_moves_to_front [of "default_props [itemA, itemB, itemC]" 2] h
  have "next_images (default_props [itemA, itemB, itemC])
          (handleSetAsCover (default_props [itemA, itemB, itemC]) 2)
        = map Item [images (default_props [itemA, itemB, itemC]) ! 2,
                    images (default_props [itemA, itemB, itemC]) ! 0,
                    images (default_props [itemA, itemB, itemC]) ! 1]"
    by blast
  then show ?thesis by (simp add: default_props_simps)
qed


section \<open>Reordering by drag and drop\<close>

lemma handleDragEnd_valid:
  assumes "enableReorder p" "i < length (images p)" "i \<noteq> j"
  shows "handleDragEnd p (Some i) (Some j) =
     [OnChange (map Item (take j (take i (images p) @ drop (Suc i) (images p))
                          @ images p ! i # drop j (take i (images p) @ drop (Suc i) (images p)))),
      SetDraggedIndex None, SetDragOverIndex None]"
proof -
  let ?L = "images p"
  let ?R = "take i ?L @ drop (Suc i) ?L"
  have s1: "splice (map Item ?L) i (Suc 0) [] = ([Item (?L ! i)], map Item ?R)"
    using assms(2) by (simp add: splice_one take_map drop_map)
  have s2: "snd (splice (map Item ?R) j 0 [Item (?L ! i)]) =
      map Item (take j ?R @ ?L ! i # drop j ?R)"
    by (rule splice_insert_map)
  show ?thesis
    using assms(1,3) by (simp add: handleDragEnd_def s1 s2 first_of_def del: map_append take_append drop_append)
qed

text \<open>
  Claim C3. With reordering enabled and valid indices \<open>i\<close> and \<open>j\<close>, ending a drag
  from \<open>i\<close> over \<open>j\<close> leaves the owner with the list \<open>L'\<close> obtained by removing
  the element at \<open>i\<close> and inserting it at position \<open>j\<close> of the list after the
  removal. \<open>L'\<close> is a permutation of \<open>L\<close>: the same length, the same multiset of
  records and of ids. For \<open>i \<noteq> j\<close> the handler calls \<^verbatim>\<open>onChange\<close> once, and a
  second drag from \<open>j\<close> over \<open>i\<close> on \<open>L'\<close> restores \<open>L\<close>; this covers
  \<open>i = 0\<close>, \<open>j = |L| - 1\<close> (the first element goes last) and its inverse (the last
  element goes first). For \<open>i = j\<close> there is no call and the list is unchanged.
\<close>

theorem handleDragEnd_reorders:
  assumes "enableReorder p" "i < length (images p)" "j < length (images p)"
  shows "\<exists>L'. next_images p (handleDragEnd p (Some i) (Some j)) = map Item L'
     \<and> L' = take j (take i (images p) @ drop (Suc i) (images p))
              @ images p ! i # drop j (take i (images p) @ drop (Suc i) (images p))
     \<and> (i \<noteq> j \<longrightarrow> snapshots (handleDragEnd p (Some i) (Some j)) = [map Item L'])
     \<and> length L' = length (images p)
     \<and> mset L' = mset (images p)
     \<and> mset (map id' L') = mset (map id' (images p))
     \<and> (i \<noteq> j \<longrightarrow>
          next_images (p\<lparr>images := L'\<rparr>) (handleDragEnd (p\<lparr>images := L'\<rparr>) (Some j) (Some i))
            = map Item (images p))
     \<and> (i = j \<longrightarrow> L' = images p \<and> snapshots (handleDragEnd p (Some i) (Some j)) = [])
     \<and> (i = 0 \<and> j = length (images p) - 1 \<longrightarrow> L' = tl (images p) @ [hd (images p)])
     \<and> (i = length (images p) - 1 \<and> j = 0 \<longrightarrow> L' = last (images p) # butlast (images p))"
proof -
  let ?L = "images p"
  let ?R = "take i ?L @ drop (Suc i) ?L"
  let ?L' = "take j ?R @ ?L ! i # drop j ?R"
  let ?p' = "p\<lparr>images := ?L'\<rparr>"
  have lenR: "length ?R = length ?L - 1" using assms(2) by simp
  have jR: "j \<le> length ?R" using assms(3) lenR by simp
  have iR: "i \<le> length ?R" using assms(2) lenR by simp
  have same: "i = j \<longrightarrow> ?L' = ?L"
    using assms(2) remove_insert_same [of i ?L] by auto
  have none: "i = j \<longrightarrow> snapshots (handleDragEnd p (Some i) (Some j)) = []"
    using assms(1) by (simp add: handleDragEnd_def)
  have one: "i \<noteq> j \<longrightarrow> snapshots (handleDragEnd p (Some i) (Some j)) = [map Item ?L']"
    using assms(1,2) by (simp add: handleDragEnd_valid del: take_append drop_append)
  have nxt: "next_images p (handleDragEnd p (Some i) (Some j)) = map Item ?L'"
  proof (cases "i = j")
    case True
    with same none show ?thesis by (simp add: next_images_def del: take_append drop_append)
  next
    case False
    with one show ?thesis by (simp add: next_images_def del: take_append drop_append)
  qed
  have len: "length ?L' = length ?L" using assms(2) jR lenR by (simp del: take_append drop_append)
  have ms: "mset ?L' = mset ?L"
    using mset_insert_at [of j ?R "?L ! i"] mset_remove_at [OF assms(2)] by simp
  have ids: "mset (map id' ?L') = mset (map id' ?L)"
    using ms by (metis mset_map)
  have rem': "take j ?L' @ drop (Suc j) ?L' = ?R" using jR by (rule insert_remove)
  have nth': "?L' ! j = ?L ! i" using jR by (rule insert_nth)
  have round: "i \<noteq> j \<longrightarrow>
      next_images ?p' (handleDragEnd ?p' (Some j) (Some i)) = map Item ?L"
  proof
    assume ne: "i \<noteq> j"
    have "handleDragEnd ?p' (Some j) (Some i) =
       [OnChange (map Item (take i (take j (images ?p') @ drop (Suc j) (images ?p'))
                          @ images ?p' ! j # drop i (take j (images ?p') @ drop (Suc j) (images ?p')))),
        SetDraggedIndex None, SetDragOverIndex None]"
      using assms ne len by (intro handleDragEnd_valid) (simp_all del: take_append drop_append)
    also have "images ?p' = ?L'" by simp
    finally have "handleDragEnd ?p' (Some j) (Some i) =
       [OnChange (map Item (take i ?R @ ?L ! i # drop i ?R)), SetDraggedIndex None, SetDragOverIndex None]"
      by (simp only: rem' nth')
    then show "next_images ?p' (handleDragEnd ?p' (Some j) (Some i)) = map Item ?L"
      using remove_insert_same [OF assms(2)] by (simp add: next_images_def del: take_append drop_append)
  qed
  have first_last: "i = 0 \<and> j = length ?L - 1 \<longrightarrow> ?L' = tl ?L @ [hd ?L]"
    using assms(2) by (cases ?L) simp_all
  have last_first: "i = length ?L - 1 \<and> j = 0 \<longrightarrow> ?L' = last ?L # butlast ?L"
    using assms(2) by (cases ?L rule: rev_cases) (simp_all add: nth_append butlast_conv_take)
  from nxt one len ms ids round same none first_last last_first show ?thesis by blast
qed

theorem handleDragEnd_reorders_witness:
  "enableReorder (default_props [itemA, itemB, itemC])
   \<and> (0::nat) < length (images (default_props [itemA, itemB, itemC]))
   \<and> (2::nat) < length (images (default_props [itemA, itemB, itemC]))
   \<and> next_images (default_props [itemA, itemB, itemC])
         (handleDragEnd (default_props [itemA, itemB, itemC]) (Some 0) (Some 2))
       = [Item itemB, Item itemC, Item itemA]
   \<and> next_images (default_props [itemB, itemC, itemA])
         (handleDragEnd (default_props [itemB, itemC, itemA]) (Some 2) (Some 0))
       = [Item itemA, Item itemB, Item itemC]"
proof -
  let ?p = "default_props [itemA, itemB, itemC]"
  have h1: "enableReorder ?p" by (simp add: default_props_simps)
  have h2: "(0::nat) < length (images ?p)" by (simp add: default_props_simps)
  have h3: "(2::nat) < length (images ?p)" by (simp add: default_props_simps)
  from handleDragEnd_reorders [OF h1 h2 h3] show ?thesis
    using h1 h2 h3 by (auto simp: default_props_simps)
qed


section \<open>Actions that change nothing\<close>

text \<open>
  Claim C10. Promoting the image at index 0 performs no effect at all; ending a drag with
  the dragged index equal to the index dragged over, or with either index untracked,
  makes no call of \<^verbatim>\<open>onChange\<close>; and an empty file selection (an empty
  \<^verbatim>\<open>FileList\<close> or \<^verbatim>\<open>null\<close>) performs no effect at all.
\<close>

theorem noop_actions_do_not_call_onChange:
  "handleSetAsCover p 0 = []
   \<and> snapshots (handleDragEnd p (Some i) (Some i)) = []
   \<and> snapshots (handleDragEnd p None over) = []
   \<and> snapshots (handleDragEnd p dragged None) = []
   \<and> handleFiles p e (Some []) = ([], Done)
   \<and> handleFiles p e None = ([], Done)"
proof -
  have a: "handleSetAsCover p 0 = []" by (simp add: handleSetAsCover_def)
  have b: "snapshots (handleDragEnd p (Some i) (Some i)) = []"
    by (cases "enableReorder p") (simp_all add: handleDragEnd_def)
  have c: "snapshots (handleDragEnd p None over) = []"
    by (cases "enableReorder p") (simp_all add: handleDragEnd_def)
  have d: "snapshots (handleDragEnd p dragged None) = []"
    by (cases "enableReorder p"; cases dragged) (simp_all add: handleDragEnd_def)
  have f: "handleFiles p e (Some []) = ([], Done)" by (simp add: handleFiles_def)
  have g: "handleFiles p e None = ([], Done)" by (simp add: handleFiles_def)
  from a b c d f g show ?thesis by blast
qed

theorem noop_actions_do_not_call_onChange_witness:
  "handleSetAsCover (default_props [itemA, itemB]) 0 = []
   \<and> snapshots (handleDragEnd (default_props [itemA, itemB]) (Some 1) (Some 1)) = []
   \<and> handleFiles (default_props [itemA, itemB]) sample_env (Some []) = ([], Done)"
  using noop_actions_do_not_call_onChange [of "default_props [itemA, itemB]" 1 None None sample_env]
  by simp


section \<open>Committing a crop\<close>

lemma commit_crop_valid:
  "i < length (images p) \<Longrightarrow>
   commit_crop p i u = ([OnChange (map Item ((images p)[i := (images p ! i)\<lparr>url := u\<rparr>]))], Done)"
  by (simp add: commit_crop_def at_index_def array_set_def map_update)

text \<open>
  Claim C8. For a valid index \<open>i\<close>, a crop that completes with the URL \<open>newUrl\<close> (the
  data URL handed over, the URL the crop upload resolves with, or the data URL read from the
  blob) hands \<^verbatim>\<open>onChange\<close> one list: the old list with the \<open>url\<close> of the record at
  \<open>i\<close> replaced by \<open>newUrl\<close>. The length, the record's \<open>id\<close> and \<open>file\<close>, its
  position and every other record are unchanged. A crop that does not complete performs no
  effect.
\<close>

theorem handleCropComplete_replaces_url_only:
  assumes "i < length (images p)"
  shows "crop_url p e i (CroppedString s) = Inr (Resolved s)
     \<and> (\<forall>upload. onCropComplete p = Some upload \<longrightarrow>
           crop_url p e i (CroppedBlob b) = Inr (upload (id' (images p ! i)) b))
     \<and> (onCropComplete p = None \<longrightarrow>
           crop_url p e i (CroppedBlob b) =
             Inr (case readAsDataURL e b of Some u \<Rightarrow> Resolved u | None \<Rightarrow> Pending))
     \<and> (\<forall>newUrl. crop_url p e i c = Inr (Resolved newUrl) \<longrightarrow>
           (\<exists>L'. handleCropComplete p e i c = ([OnChange (map Item L')], Done)
              \<and> L' = (images p)[i := (images p ! i)\<lparr>url := newUrl\<rparr>]
              \<and> length L' = length (images p)
              \<and> url (L' ! i) = newUrl
              \<and> id' (L' ! i) = id' (images p ! i)
              \<and> file' (L' ! i) = file' (images p ! i)
              \<and> (\<forall>k<length (images p). k \<noteq> i \<longrightarrow> L' ! k = images p ! k)))
     \<and> ((\<forall>newUrl. crop_url p e i c \<noteq> Inr (Resolved newUrl)) \<longrightarrow>
           fst (handleCropComplete p e i c) = [])"
proof -
  have a: "crop_url p e i (CroppedString s) = Inr (Resolved s)"
    by (simp add: crop_url_def)
  have b: "\<forall>upload. onCropComplete p = Some upload \<longrightarrow>
           crop_url p e i (CroppedBlob b) = Inr (upload (id' (images p ! i)) b)"
    using assms by (simp add: crop_url_def at_index_def)
  have c: "onCropComplete p = None \<longrightarrow>
           crop_url p e i (CroppedBlob b) =
             Inr (case readAsDataURL e b of Some u \<Rightarrow> Resolved u | None \<Rightarrow> Pending)"
    by (simp add: crop_url_def split: option.split)
  have d: "\<forall>newUrl. crop_url p e i c = Inr (Resolved newUrl) \<longrightarrow>
           (\<exists>L'. handleCropComplete p e i c = ([OnChange (map Item L')], Done)
              \<and> L' = (images p)[i := (images p ! i)\<lparr>url := newUrl\<rparr>]
              \<and> length L' = length (images p)
              \<and> url (L' ! i) = newUrl
              \<and> id' (L' ! i) = id' (images p ! i)
              \<and> file' (L' ! i) = file' (images p ! i)
              \<and> (\<forall>k<length (images p). k \<noteq> i \<longrightarrow> L' ! k = images p ! k))"
    using assms by (simp add: handleCropComplete_def commit_crop_valid)
  have e: "(\<forall>newUrl. crop_url p e i c \<noteq> Inr (Resolved newUrl)) \<longrightarrow>
           fst (handleCropComplete p e i c) = []"
    by (auto simp: handleCropComplete_def split: sum.split outcome.split exn.split)
  from a b c d e show ?thesis by blast
qed

theorem handleCropComplete_replaces_url_only_witness:
  "(1::nat) < length (images (default_props [itemA, itemB, itemC]))
   \<and> handleCropComplete (default_props [itemA, itemB, itemC]) sample_env 1
        (CroppedString ''data:image/jpeg;base64,new'')
     = ([OnChange [Item itemA, Item (itemB\<lparr>url := ''data:image/jpeg;base64,new''\<rparr>), Item itemC]], Done)"
proof -
  let ?p = "default_props [itemA, itemB, itemC]"
  have h: "(1::nat) < length (images ?p)" by (simp add: default_props_simps)
  from handleCropComplete_replaces_url_only
         [OF h, of sample_env "''data:image/jpeg;base64,new''" undefined "CroppedString ''data:image/jpeg;base64,new''"]
  show ?thesis using h by (auto simp: default_props_simps)
qed


section \<open>Validating a file\<close>

lemma split_slash_two:
  "(\<exists>a b rest. split_slash t = a # b # rest) \<longleftrightarrow> CHR ''/'' \<in> set t"
proof (induction t)
  case Nil
  show ?case by simp
next
  case (Cons c cs)
  have ne: "split_slash cs \<noteq> []" by (cases cs) (auto split: list.split)
  show ?case
  proof (cases "c = CHR ''/''")
    case True
    with ne show ?thesis by (cases "split_slash cs") auto
  next
    case False
    with Cons ne show ?thesis by (cases "split_slash cs") (auto split: list.split)
  qed
qed

lemma exn_unique: "(x :: exn) = TypeError"
  by (cases x) simp

lemma format_of_throws: "format_of t = Inl TypeError \<longleftrightarrow> CHR ''/'' \<notin> set t"
proof -
  have "format_of t = Inl TypeError \<longleftrightarrow> \<not> (\<exists>a b rest. split_slash t = a # b # rest)"
    by (auto simp: format_of_def split: list.split)
  then show ?thesis by (simp add: split_slash_two)
qed

lemma formats_of_throws:
  "formats_of ts = Inl TypeError \<longleftrightarrow> (\<exists>t\<in>set ts. CHR ''/'' \<notin> set t)"
proof (induction ts)
  case Nil
  show ?case by simp
next
  case (Cons t ts)
  show ?case
  proof (cases "format_of t")
    case (Inl x)
    then have "format_of t = Inl TypeError" by (simp add: exn_unique [of x])
    then show ?thesis by (simp add: format_of_throws [symmetric])
  next
    case (Inr f)
    then have "format_of t \<noteq> Inl TypeError" by simp
    then have "CHR ''/'' \<in> set t" by (simp add: format_of_throws)
    with Inr Cons show ?thesis by (cases "formats_of ts") (simp_all add: exn_unique)
  qed
qed

lemma formatsList_throws:
  "formatsList ts = Inl TypeError \<longleftrightarrow> (\<exists>t\<in>set ts. CHR ''/'' \<notin> set t)"
  using formats_of_throws [of ts]
  by (cases "formats_of ts") (simp_all add: formatsList_def exn_unique)

lemma validateFile_throws:
  "validateFile p f = Inl TypeError \<longleftrightarrow>
     type f \<notin> set (allowedTypes p) \<and> (\<exists>t\<in>set (allowedTypes p). CHR ''/'' \<notin> set t)"
  using formatsList_throws [of "allowedTypes p"]
  by (cases "formatsList (allowedTypes p)") (simp_all add: validateFile_def exn_unique)

lemma formatsList_default:
  "formatsList DEFAULT_ALLOWED_TYPES = Inr ''JPEG, JPG, PNG, WEBP, GIF''"
  by code_simp

text \<open>
  Claim C5. The handlers of the component exist once it has rendered, and every render
  evaluates the formats list (lines 616--618), which is the expression \<open>formatsList\<close>
  that \<^verbatim>\<open>validateFile\<close> evaluates for its message; so \<^verbatim>\<open>validateFile\<close> runs with
  an allow-list for which that expression has a value. Then, for every file:
  \<^verbatim>\<open>validateFile\<close> returns \<^verbatim>\<open>null\<close> when the file's type is in the allow-list and
  its size is at most \<open>maxFileSize\<close>; it returns one message, the invalid-format one,
  when the type is not in the allow-list; it returns one message, the size-limit one, when
  the type is allowed and the size exceeds \<open>maxFileSize\<close>; and it does not throw.
  (\<open>validateFile_throws\<close> above says when the function throws otherwise: the type is
  not allowed and an entry of the allow-list has no slash.)
\<close>

theorem validateFile_verdict:
  assumes "formatsList (allowedTypes p) = Inr formats"
  shows "(type f \<in> set (allowedTypes p) \<and> int (size' f) \<le> maxFileSize p \<longrightarrow>
            validateFile p f = Inr None)
     \<and> (type f \<notin> set (allowedTypes p) \<longrightarrow>
            validateFile p f =
              Inr (Some (''File '' @ name f @ '': invalid format. Allowed: '' @ formats)))
     \<and> (type f \<in> set (allowedTypes p) \<and> int (size' f) > maxFileSize p \<longrightarrow>
            validateFile p f =
              Inr (Some (''File '' @ name f @ '': exceeds size limit. Maximum ''
                         @ toFixed0_MB (maxFileSize p) @ ''MB'')))
     \<and> validateFile p f \<noteq> Inl TypeError"
  using assms by (simp add: validateFile_def)

theorem validateFile_verdict_witness:
  "formatsList (allowedTypes (default_props [])) = Inr ''JPEG, JPG, PNG, WEBP, GIF''
   \<and> validateFile (default_props []) photo1 = Inr None
   \<and> validateFile (default_props []) textfile =
       Inr (Some ''File notes.txt: invalid format. Allowed: JPEG, JPG, PNG, WEBP, GIF'')
   \<and> validateFile (default_props []) poster =
       Inr (Some ''File poster.png: exceeds size limit. Maximum 5MB'')"
proof -
  let ?p = "default_props []"
  have h: "formatsList (allowedTypes ?p) = Inr ''JPEG, JPG, PNG, WEBP, GIF''"
    by (simp add: default_props_simps formatsList_default)
  have five: "toFixed0_MB DEFAULT_MAX_FILE_SIZE = ''5''"
    by (simp add: toFixed0_MB_def DEFAULT_MAX_FILE_SIZE_def decimal.simps digit_def)
  have t: "type photo1 \<in> set DEFAULT_ALLOWED_TYPES" "type textfile \<notin> set DEFAULT_ALLOWED_TYPES"
    "type poster \<in> set DEFAULT_ALLOWED_TYPES"
    by (simp_all add: photo1_def textfile_def poster_def DEFAULT_ALLOWED_TYPES_def)
  have sz: "int (size' photo1) \<le> DEFAULT_MAX_FILE_SIZE" "int (size' poster) > DEFAULT_MAX_FILE_SIZE"
    by (simp_all add: photo1_def poster_def DEFAULT_MAX_FILE_SIZE_def)
  have nm: "name textfile = ''notes.txt''" "name poster = ''poster.png''"
    by (simp_all add: textfile_def poster_def)
  have one: "validateFile ?p photo1 = Inr None"
    using validateFile_verdict [OF h, of photo1] t sz by (simp add: default_props_simps)
  have two: "validateFile ?p textfile =
       Inr (Some ''File notes.txt: invalid format. Allowed: JPEG, JPG, PNG, WEBP, GIF'')"
    using validateFile_verdict [OF h, of textfile] t by (simp add: default_props_simps nm)
  have three: "validateFile ?p poster =
       Inr (Some ''File poster.png: exceeds size limit. Maximum 5MB'')"
    using validateFile_verdict [OF h, of poster] t sz by (simp add: default_props_simps nm five)
  from h one two three show ?thesis by blast
qed


section \<open>The intake pipeline: validation and processing loops\<close>

lemma validate_all_Inr:
  "validate_all p fs errs vs = Inr (es, v) \<Longrightarrow>
     es = errs @ rejection_messages p fs \<and> v = vs @ filter (accepted p) fs"
proof (induction fs arbitrary: errs vs)
  case Nil
  then show ?case by simp
next
  case (Cons f fs)
  show ?case
  proof (cases "validateFile p f")
    case (Inl x)
    with Cons.prems show ?thesis by simp
  next
    case (Inr m)
    show ?thesis
    proof (cases m)
      case None
      with Inr Cons.prems have "validate_all p fs errs (vs @ [f]) = Inr (es, v)" by simp
      from Cons.IH [OF this] Inr None show ?thesis by (simp add: accepted_def)
    next
      case (Some msg)
      with Inr Cons.prems have "validate_all p fs (errs @ [msg]) vs = Inr (es, v)" by simp
      from Cons.IH [OF this] Inr Some show ?thesis by (simp add: accepted_def)
    qed
  qed
qed

lemma validate_all_rendered:
  assumes "formatsList (allowedTypes p) = Inr formats"
  shows "validate_all p fs errs vs =
     Inr (errs @ rejection_messages p fs, vs @ filter (accepted p) fs)"
proof (induction fs arbitrary: errs vs)
  case Nil
  show ?case by simp
next
  case (Cons f fs)
  from assms obtain m where m: "validateFile p f = Inr m"
    by (cases "validateFile p f") (auto simp: validateFile_def split: if_splits)
  show ?case using Cons.IH m by (cases m) (simp_all add: accepted_def)
qed

lemma process_files_Resolved:
  assumes "\<forall>j<length fs. \<exists>u. resolve_url p e (k + j) (fs ! j) = Resolved u"
  shows "\<exists>new. process_files p e k fs acc = Resolved (acc @ new)
     \<and> length new = length fs
     \<and> (\<forall>j<length fs. id' (new ! j) = generateId e (k + j)
            \<and> file' (new ! j) = Some (fs ! j)
            \<and> resolve_url p e (k + j) (fs ! j) = Resolved (url (new ! j)))"
  using assms
proof (induction fs arbitrary: k acc)
  case Nil
  then show ?case by simp
next
  case (Cons f fs)
  from Cons.prems have "\<exists>u. resolve_url p e (k + 0) ((f # fs) ! 0) = Resolved u" by blast
  then obtain u where u: "resolve_url p e k f = Resolved u" by auto
  have "\<forall>j<length fs. \<exists>u. resolve_url p e (Suc k + j) (fs ! j) = Resolved u"
  proof (intro allI impI)
    fix j assume "j < length fs"
    then have "Suc j < length (f # fs)" by simp
    with Cons.prems have "\<exists>u. resolve_url p e (k + Suc j) ((f # fs) ! Suc j) = Resolved u" by blast
    then show "\<exists>u. resolve_url p e (Suc k + j) (fs ! j) = Resolved u" by simp
  qed
  from Cons.IH [OF this, of "acc @ [\<lparr>id' = generateId e k, url = u, file' = Some f\<rparr>]"]
  obtain new where new: "process_files p e (Suc k) fs (acc @ [\<lparr>id' = generateId e k, url = u, file' = Some f\<rparr>])
        = Resolved ((acc @ [\<lparr>id' = generateId e k, url = u, file' = Some f\<rparr>]) @ new)"
     "length new = length fs"
     "\<forall>j<length fs. id' (new ! j) = generateId e (Suc k + j)
            \<and> file' (new ! j) = Some (fs ! j)
            \<and> resolve_url p e (Suc k + j) (fs ! j) = Resolved (url (new ! j))"
    by blast
  let ?r = "\<lparr>id' = generateId e k, url = u, file' = Some f\<rparr>"
  have 1: "process_files p e k (f # fs) acc = Resolved (acc @ (?r # new))"
    using u new(1) by simp
  have 2: "length (?r # new) = length (f # fs)" using new(2) by simp
  have 3: "\<forall>j<length (f # fs). id' ((?r # new) ! j) = generateId e (k + j)
            \<and> file' ((?r # new) ! j) = Some ((f # fs) ! j)
            \<and> resolve_url p e (k + j) ((f # fs) ! j) = Resolved (url ((?r # new) ! j))"
  proof (intro allI impI)
    fix j assume j: "j < length (f # fs)"
    show "id' ((?r # new) ! j) = generateId e (k + j)
            \<and> file' ((?r # new) ! j) = Some ((f # fs) ! j)
            \<and> resolve_url p e (k + j) ((f # fs) ! j) = Resolved (url ((?r # new) ! j))"
    proof (cases j)
      case 0
      with u show ?thesis by simp
    next
      case (Suc j')
      with j new(3) show ?thesis by simp
    qed
  qed
  from 1 2 3 show ?case by blast
qed

lemma process_files_Rejected:
  assumes "n < length fs"
    and "resolve_url p e (k + n) (fs ! n) = Rejected r"
    and "\<forall>j<n. \<exists>u. resolve_url p e (k + j) (fs ! j) = Resolved u"
  shows "process_files p e k fs acc = Rejected r"
  using assms
proof (induction fs arbitrary: k n acc)
  case Nil
  then show ?case by simp
next
  case (Cons f fs)
  show ?case
  proof (cases n)
    case 0
    with Cons.prems show ?thesis by simp
  next
    case (Suc n')
    with Cons.prems have "\<exists>u. resolve_url p e (k + 0) ((f # fs) ! 0) = Resolved u" by blast
    then obtain u where u: "resolve_url p e k f = Resolved u" by auto
    have a: "n' < length fs" using Cons.prems Suc by simp
    have b: "resolve_url p e (Suc k + n') (fs ! n') = Rejected r" using Cons.prems Suc by simp
    have c: "\<forall>j<n'. \<exists>u. resolve_url p e (Suc k + j) (fs ! j) = Resolved u"
    proof (intro allI impI)
      fix j assume "j < n'"
      then have "Suc j < n" using Suc by simp
      with Cons.prems have "\<exists>u. resolve_url p e (k + Suc j) ((f # fs) ! Suc j) = Resolved u" by blast
      then show "\<exists>u. resolve_url p e (Suc k + j) (fs ! j) = Resolved u" by simp
    qed
    from Cons.IH [OF a b c] u show ?thesis by simp
  qed
qed

lemma process_files_ids:
  "process_files p e k fs acc = Resolved res \<Longrightarrow>
     \<exists>new. res = acc @ new \<and> map id' new = map (generateId e) [k..<k + length fs]"
proof (induction fs arbitrary: k acc)
  case Nil
  then show ?case by simp
next
  case (Cons f fs)
  from Cons.prems obtain u where u: "resolve_url p e k f = Resolved u"
    by (cases "resolve_url p e k f") simp_all
  let ?r = "\<lparr>id' = generateId e k, url = u, file' = Some f\<rparr>"
  from Cons.prems u have "process_files p e (Suc k) fs (acc @ [?r]) = Resolved res" by simp
  from Cons.IH [OF this] obtain new where
    new: "res = (acc @ [?r]) @ new" "map id' new = map (generateId e) [Suc k..<Suc k + length fs]"
    by blast
  have "res = acc @ (?r # new)" using new(1) by simp
  moreover have "[k..<k + length (f # fs)] = k # [Suc k..<Suc k + length fs]"
    using upt_conv_Cons [of k "k + Suc (length fs)"] by simp
  then have "map id' (?r # new) = map (generateId e) [k..<k + length (f # fs)]"
    using new(2) by (simp del: upt_Suc)
  ultimately show ?case by blast
qed

lemma sample_verdicts:
  assumes "allowedTypes p = DEFAULT_ALLOWED_TYPES" "maxFileSize p = DEFAULT_MAX_FILE_SIZE"
  shows "validateFile p photo1 = Inr None"
    "validateFile p photo2 = Inr None"
    "validateFile p textfile =
       Inr (Some ''File notes.txt: invalid format. Allowed: JPEG, JPG, PNG, WEBP, GIF'')"
proof -
  note fl = formatsList_default
  show "validateFile p photo1 = Inr None"
    by (simp add: validateFile_def assms photo1_def DEFAULT_ALLOWED_TYPES_def DEFAULT_MAX_FILE_SIZE_def)
  show "validateFile p photo2 = Inr None"
    by (simp add: validateFile_def assms photo2_def DEFAULT_ALLOWED_TYPES_def DEFAULT_MAX_FILE_SIZE_def)
  have "type textfile \<notin> set DEFAULT_ALLOWED_TYPES" "name textfile = ''notes.txt''"
    by (simp_all add: textfile_def DEFAULT_ALLOWED_TYPES_def)
  then show "validateFile p textfile =
       Inr (Some ''File notes.txt: invalid format. Allowed: JPEG, JPG, PNG, WEBP, GIF'')"
    by (simp add: validateFile_def assms fl)
qed

lemma sample_ids:
  "generateId sample_env 0 = ''img_1700000000000_4fzyo82mv''"
  "generateId sample_env 1 = ''img_1700000000001_4fzyo82mv''"
  "generateId same_tick_env 0 = ''img_1700000000000_4fzyo82mv''"
  "generateId same_tick_env 1 = ''img_1700000000000_4fzyo82mv''"
  "generateId sample_env (Suc 0) = ''img_1700000000001_4fzyo82mv''"
  "generateId same_tick_env (Suc 0) = ''img_1700000000000_4fzyo82mv''"
  by (simp_all add: generateId_def sample_env_def same_tick_env_def decimal.simps digit_def)

lemma sample_run_two_photos:
  assumes "length L \<le> 8" and "fileToDataUrl e = fileToDataUrl sample_env"
  shows "handleFiles (default_props L) e (Some [photo1, photo2]) =
     ([SetUploading True,
       OnChange (map Item (L @
         [\<lparr>id' = generateId e 0, url = ''data:image/jpeg;base64,one.jpg'', file' = Some photo1\<rparr>,
          \<lparr>id' = generateId e 1, url = ''data:image/jpeg;base64,two.jpg'', file' = Some photo2\<rparr>])),
       Toast \<lparr>title = ''Success'', description = ''2 image(s) added'', variant = None\<rparr>,
       SetUploading False,
       ResetFileInput], Done)"
proof -
  let ?p = "default_props L"
  have v: "validate_all ?p [photo1, photo2] [] [] = Inr ([], [photo1, photo2])"
    by (simp add: sample_verdicts default_props_simps)
  have u: "resolve_url ?p e k f = Resolved (''data:'' @ type f @ '';base64,'' @ name f)" for k f
    by (simp add: resolve_url_def default_props_simps assms(2) sample_env_def)
  have tn: "type photo1 = ''image/jpeg''" "name photo1 = ''one.jpg''"
     "type photo2 = ''image/jpeg''" "name photo2 = ''two.jpg''"
    by (simp_all add: photo1_def photo2_def)
  have pf: "process_files ?p e 0 [photo1, photo2] [] =
     Resolved [\<lparr>id' = generateId e 0, url = ''data:image/jpeg;base64,one.jpg'', file' = Some photo1\<rparr>,
               \<lparr>id' = generateId e 1, url = ''data:image/jpeg;base64,two.jpg'', file' = Some photo2\<rparr>]"
    by (simp add: u tn)
  have two: "decimal (Suc (Suc 0)) = ''2''"
    by (simp add: decimal.simps [of "Suc (Suc 0)"] digit_def)
  show ?thesis
    using assms(1)
    by (simp add: handleFiles_def v pf default_props_simps show_errors_def two
        del: validate_all.simps process_files.simps)
qed


text \<open>
  A batch within the limit none of whose files is accepted: the validation toast and the
  reset of the file input, and no call of \<^verbatim>\<open>onChange\<close> (line 448).
\<close>

lemma handleFiles_none_accepted:
  assumes "formatsList (allowedTypes p) = Inr formats"
    and "fileArray \<noteq> []"
    and "int (length (images p)) + int (length fileArray) \<le> maxImages p"
    and "filter (accepted p) fileArray = []"
  shows "handleFiles p e (Some fileArray) =
     (show_errors (rejection_messages p fileArray) @ [ResetFileInput], Done)"
proof -
  have "validate_all p fileArray [] [] = Inr (rejection_messages p fileArray, [])"
    using validate_all_rendered [OF assms(1), of fileArray "[]" "[]"] assms(4) by simp
  then show ?thesis using assms(2,3) by (simp add: handleFiles_def)
qed


section \<open>The count limit of a batch\<close>

text \<open>
  Claim C1. For every list and every batch with at least one file (an empty selection is
  no batch: \<^verbatim>\<open>handleFiles\<close> returns at line 411, before the count check), if the
  number of images plus the number of incoming files exceeds \<open>maxImages\<close>, the run
  consists of one toast, the aggregate error, and nothing else: no per-file validation
  (no validation toast, and no exception of the validator either), no file processed (no
  \<open>SetUploading\<close>), no call of \<^verbatim>\<open>onChange\<close>.
\<close>

theorem handleFiles_over_limit:
  assumes "fileArray \<noteq> []"
    and "int (length (images p)) + int (length fileArray) > maxImages p"
  shows "handleFiles p e (Some fileArray) =
     ([Toast \<lparr>title = ''Error'',
              description = ''Maximum '' @ number_toString (maxImages p) @ '' images allowed'',
              variant = Some ''destructive''\<rparr>], Done)"
  using assms by (simp add: handleFiles_def)

theorem handleFiles_over_limit_witness:
  "replicate 10 photo1 \<noteq> []
   \<and> int (length (images (default_props [itemA]))) + int (length (replicate 10 photo1))
       > maxImages (default_props [itemA])
   \<and> handleFiles (default_props [itemA]) sample_env (Some (replicate 10 photo1)) =
     ([Toast \<lparr>title = ''Error'', description = ''Maximum 10 images allowed'',
              variant = Some ''destructive''\<rparr>], Done)"
proof -
  let ?p = "default_props [itemA]"
  have h1: "replicate 10 photo1 \<noteq> []" by simp
  have h2: "int (length (images ?p)) + int (length (replicate 10 photo1)) > maxImages ?p"
    by (simp add: default_props_simps)
  have ten: "number_toString 10 = ''10''"
    by (simp add: number_toString_def decimal.simps digit_def)
  from handleFiles_over_limit [OF h1 h2, of sample_env] show ?thesis
    using h1 h2 by (simp add: default_props_simps ten)
qed


section \<open>A batch whose processing fails\<close>

text \<open>
  Claim C2. Take a batch that passes validation: the component has rendered, the batch is
  not empty and within the count limit, and \<open>validFiles\<close> are its accepted files. If the
  resolution of the accepted file at position \<open>k\<close> (the upload callback, or the read
  into a data URL) rejects with \<open>r\<close> during processing, that is, after the files before
  it have resolved, then the run is: the validation toast if files were rejected, the
  uploading flag set, one error toast with the message of \<open>r\<close>, the flag cleared, the
  file input reset. There is no call of \<^verbatim>\<open>onChange\<close>, so the records built for the
  earlier files are dropped and the list stays as it was, and exactly one toast with the
  title \<^verbatim>\<open>Error\<close> is shown.
\<close>

theorem handleFiles_abandons_batch_on_failure:
  assumes "formatsList (allowedTypes p) = Inr formats"
    and "fileArray \<noteq> []"
    and "int (length (images p)) + int (length fileArray) \<le> maxImages p"
    and "validFiles = filter (accepted p) fileArray"
    and "k < length validFiles"
    and "resolve_url p e k (validFiles ! k) = Rejected r"
    and "\<forall>j<k. \<exists>u. resolve_url p e j (validFiles ! j) = Resolved u"
  shows "handleFiles p e (Some fileArray) =
       (show_errors (rejection_messages p fileArray) @
        [SetUploading True,
         Toast \<lparr>title = ''Error'', description = catch_message r,
                variant = Some ''destructive''\<rparr>,
         SetUploading False,
         ResetFileInput], Done)
     \<and> snapshots (fst (handleFiles p e (Some fileArray))) = []
     \<and> next_images p (fst (handleFiles p e (Some fileArray))) = map Item (images p)
     \<and> filter (\<lambda>t. title t = ''Error'') (toasts (fst (handleFiles p e (Some fileArray)))) =
         [\<lparr>title = ''Error'', description = catch_message r, variant = Some ''destructive''\<rparr>]"
proof -
  have va: "validate_all p fileArray [] [] = Inr (rejection_messages p fileArray, validFiles)"
    using validate_all_rendered [OF assms(1), of fileArray "[]" "[]"] assms(4) by simp
  have ne: "validFiles \<noteq> []" using assms(5) by auto
  have pf: "process_files p e 0 validFiles [] = Rejected r"
    using assms(5,6,7) by (intro process_files_Rejected [of k]) simp_all
  have run: "handleFiles p e (Some fileArray) =
       (show_errors (rejection_messages p fileArray) @
        [SetUploading True,
         Toast \<lparr>title = ''Error'', description = catch_message r,
                variant = Some ''destructive''\<rparr>,
         SetUploading False,
         ResetFileInput], Done)"
    using assms(2,3) ne by (simp add: handleFiles_def va pf)
  have sn: "snapshots (show_errors es @ xs) = snapshots xs" for es xs
    by (simp add: show_errors_def)
  have ts: "filter (\<lambda>t. title t = ''Error'') (toasts (show_errors es @ xs)) =
      filter (\<lambda>t. title t = ''Error'') (toasts xs)" for es xs
    by (simp add: show_errors_def)
  have s0: "snapshots (fst (handleFiles p e (Some fileArray))) = []"
    by (simp add: run sn)
  have nx: "next_images p (fst (handleFiles p e (Some fileArray))) = map Item (images p)"
    using s0 by (simp add: next_images_def)
  have t1: "filter (\<lambda>t. title t = ''Error'') (toasts (fst (handleFiles p e (Some fileArray)))) =
         [\<lparr>title = ''Error'', description = catch_message r, variant = Some ''destructive''\<rparr>]"
    by (simp add: run ts)
  from run s0 nx t1 show ?thesis by blast
qed

theorem handleFiles_abandons_batch_on_failure_witness:
  "[photo1, photo2] =
     filter (accepted ((default_props [itemA])\<lparr>onUpload := Some second_upload_fails\<rparr>))
       [photo1, textfile, photo2]
   \<and> resolve_url ((default_props [itemA])\<lparr>onUpload := Some second_upload_fails\<rparr>) sample_env 0
        ([photo1, photo2] ! 0) = Resolved ''https://cdn.example.org/one.jpg''
   \<and> resolve_url ((default_props [itemA])\<lparr>onUpload := Some second_upload_fails\<rparr>) sample_env 1
        ([photo1, photo2] ! 1) = Rejected (ErrorObj ''upload failed'')
   \<and> handleFiles ((default_props [itemA])\<lparr>onUpload := Some second_upload_fails\<rparr>) sample_env
        (Some [photo1, textfile, photo2]) =
       ([Toast \<lparr>title = ''Validation Errors'',
                description = ''File notes.txt: invalid format. Allowed: JPEG, JPG, PNG, WEBP, GIF'',
                variant = Some ''destructive''\<rparr>,
         SetUploading True,
         Toast \<lparr>title = ''Error'', description = ''upload failed'',
                variant = Some ''destructive''\<rparr>,
         SetUploading False,
         ResetFileInput], Done)"
proof -
  let ?p = "(default_props [itemA])\<lparr>onUpload := Some second_upload_fails\<rparr>"
  have cfg: "allowedTypes ?p = DEFAULT_ALLOWED_TYPES" "maxFileSize ?p = DEFAULT_MAX_FILE_SIZE"
    "maxImages ?p = 10" "images ?p = [itemA]" "onUpload ?p = Some second_upload_fails"
    by (simp_all add: default_props_simps)
  have h1: "formatsList (allowedTypes ?p) = Inr ''JPEG, JPG, PNG, WEBP, GIF''"
    by (simp add: cfg formatsList_default)
  have h2: "[photo1, textfile, photo2] \<noteq> []" by simp
  have h3: "int (length (images ?p)) + int (length [photo1, textfile, photo2]) \<le> maxImages ?p"
    by (simp add: cfg)
  have h4: "[photo1, photo2] = filter (accepted ?p) [photo1, textfile, photo2]"
    by (simp add: accepted_def sample_verdicts [OF cfg(1,2)])
  have h5: "(1::nat) < length [photo1, photo2]" by simp
  have nm: "name photo1 = ''one.jpg''" by (simp add: photo1_def)
  have r0: "resolve_url ?p sample_env 0 ([photo1, photo2] ! 0) = Resolved ''https://cdn.example.org/one.jpg''"
    by (simp add: resolve_url_def cfg second_upload_fails_def nm)
  have h6: "resolve_url ?p sample_env 1 ([photo1, photo2] ! 1) = Rejected (ErrorObj ''upload failed'')"
    by (simp add: resolve_url_def cfg second_upload_fails_def)
  have h7: "\<forall>j<1. \<exists>u. resolve_url ?p sample_env j ([photo1, photo2] ! j) = Resolved u"
    using r0 by simp
  have msgs: "rejection_messages ?p [photo1, textfile, photo2] =
      [''File notes.txt: invalid format. Allowed: JPEG, JPG, PNG, WEBP, GIF'']"
    by (simp add: sample_verdicts [OF cfg(1,2)])
  from handleFiles_abandons_batch_on_failure [OF h1 h2 h3 h4 h5 h6 h7]
  have "handleFiles ?p sample_env (Some [photo1, textfile, photo2]) =
       (show_errors (rejection_messages ?p [photo1, textfile, photo2]) @
        [SetUploading True,
         Toast \<lparr>title = ''Error'', description = catch_message (ErrorObj ''upload failed''),
                variant = Some ''destructive''\<rparr>,
         SetUploading False,
         ResetFileInput], Done)"
    by blast
  then have run: "handleFiles ?p sample_env (Some [photo1, textfile, photo2]) =
       ([Toast \<lparr>title = ''Validation Errors'',
                description = ''File notes.txt: invalid format. Allowed: JPEG, JPG, PNG, WEBP, GIF'',
                variant = Some ''destructive''\<rparr>,
         SetUploading True,
         Toast \<lparr>title = ''Error'', description = ''upload failed'',
                variant = Some ''destructive''\<rparr>,
         SetUploading False,
         ResetFileInput], Done)"
    by (simp add: msgs show_errors_def catch_message_def del: rejection_messages.simps)
  show ?thesis by (intro conjI h4 r0 h6 run)
qed


section \<open>A batch that is committed\<close>

text \<open>
  Claim C6. Take a batch that passes validation with at least one accepted file (with none
  there is nothing to resolve, and line 448 skips the commit), all of whose accepted files
  resolve. Then the run calls \<^verbatim>\<open>onChange\<close> exactly once, with the old list followed by
  one new record per accepted file, in the order of the selection: the record at position
  \<open>k\<close> holds the \<open>k\<close>-th accepted file, the URL it resolved to and the \<open>k\<close>-th
  generated id. When the old list is empty the record of the first accepted file is at
  position 0, the cover. (The witness is the scenario of two valid files added to an empty
  list.)
\<close>

theorem handleFiles_commits_batch_once:
  assumes "formatsList (allowedTypes p) = Inr formats"
    and "fileArray \<noteq> []"
    and "int (length (images p)) + int (length fileArray) \<le> maxImages p"
    and "validFiles = filter (accepted p) fileArray"
    and "validFiles \<noteq> []"
    and "\<forall>k<length validFiles. \<exists>u. resolve_url p e k (validFiles ! k) = Resolved u"
  shows "\<exists>newImages.
       handleFiles p e (Some fileArray) =
         (show_errors (rejection_messages p fileArray) @
          [SetUploading True,
           OnChange (map Item (images p @ newImages)),
           Toast \<lparr>title = ''Success'',
                  description = decimal (length newImages) @ '' image(s) added'',
                  variant = None\<rparr>,
           SetUploading False,
           ResetFileInput], Done)
     \<and> snapshots (fst (handleFiles p e (Some fileArray))) = [map Item (images p @ newImages)]
     \<and> length newImages = length validFiles
     \<and> (\<forall>k<length validFiles.
            file' (newImages ! k) = Some (validFiles ! k)
          \<and> resolve_url p e k (validFiles ! k) = Resolved (url (newImages ! k))
          \<and> id' (newImages ! k) = generateId e k)
     \<and> (images p = [] \<longrightarrow> (images p @ newImages) ! 0 = newImages ! 0
            \<and> file' (newImages ! 0) = Some (validFiles ! 0))"
proof -
  have va: "validate_all p fileArray [] [] = Inr (rejection_messages p fileArray, validFiles)"
    using validate_all_rendered [OF assms(1), of fileArray "[]" "[]"] assms(4) by simp
  from process_files_Resolved [of validFiles p e 0 "[]"] assms(6)
  obtain new where new: "process_files p e 0 validFiles [] = Resolved new"
    "length new = length validFiles"
    "\<forall>j<length validFiles. id' (new ! j) = generateId e j
            \<and> file' (new ! j) = Some (validFiles ! j)
            \<and> resolve_url p e j (validFiles ! j) = Resolved (url (new ! j))"
    by auto
  have run: "handleFiles p e (Some fileArray) =
         (show_errors (rejection_messages p fileArray) @
          [SetUploading True,
           OnChange (map Item (images p @ new)),
           Toast \<lparr>title = ''Success'',
                  description = decimal (length new) @ '' image(s) added'',
                  variant = None\<rparr>,
           SetUploading False,
           ResetFileInput], Done)"
    using assms(2,3,5) by (simp add: handleFiles_def va new(1))
  have sn: "snapshots (show_errors es @ xs) = snapshots xs" for es xs
    by (simp add: show_errors_def)
  have s1: "snapshots (fst (handleFiles p e (Some fileArray))) = [map Item (images p @ new)]"
    by (simp add: run sn)
  have each: "\<forall>k<length validFiles.
            file' (new ! k) = Some (validFiles ! k)
          \<and> resolve_url p e k (validFiles ! k) = Resolved (url (new ! k))
          \<and> id' (new ! k) = generateId e k"
    using new(3) by blast
  have pos: "0 < length validFiles" using assms(5) by simp
  have cover: "images p = [] \<longrightarrow> (images p @ new) ! 0 = new ! 0
            \<and> file' (new ! 0) = Some (validFiles ! 0)"
    using each pos by simp
  from run s1 new(2) each cover show ?thesis by blast
qed

theorem handleFiles_commits_batch_once_witness:
  "formatsList (allowedTypes (default_props [])) = Inr ''JPEG, JPG, PNG, WEBP, GIF''
   \<and> [photo1, photo2] = filter (accepted (default_props [])) [photo1, photo2]
   \<and> int (length (images (default_props []))) + int (length [photo1, photo2])
        \<le> maxImages (default_props [])
   \<and> resolve_url (default_props []) sample_env 0 ([photo1, photo2] ! 0) =
       Resolved ''data:image/jpeg;base64,one.jpg''
   \<and> resolve_url (default_props []) sample_env 1 ([photo1, photo2] ! 1) =
       Resolved ''data:image/jpeg;base64,two.jpg''
   \<and> snapshots (fst (handleFiles (default_props []) sample_env (Some [photo1, photo2]))) =
     [[Item \<lparr>id' = ''img_1700000000000_4fzyo82mv'',
             url = ''data:image/jpeg;base64,one.jpg'', file' = Some photo1\<rparr>,
       Item \<lparr>id' = ''img_1700000000001_4fzyo82mv'',
             url = ''data:image/jpeg;base64,two.jpg'', file' = Some photo2\<rparr>]]"
proof -
  let ?p = "default_props []"
  have h1: "formatsList (allowedTypes ?p) = Inr ''JPEG, JPG, PNG, WEBP, GIF''"
    by (simp add: default_props_simps formatsList_default)
  have h2: "[photo1, photo2] \<noteq> []" by simp
  have h3: "int (length (images ?p)) + int (length [photo1, photo2]) \<le> maxImages ?p"
    by (simp add: default_props_simps)
  have h4: "[photo1, photo2] = filter (accepted ?p) [photo1, photo2]"
    by (simp add: accepted_def sample_verdicts default_props_simps)
  have r0: "resolve_url ?p sample_env 0 ([photo1, photo2] ! 0) =
       Resolved ''data:image/jpeg;base64,one.jpg''"
    by (simp add: resolve_url_def default_props_simps sample_env_def photo1_def)
  have r1: "resolve_url ?p sample_env 1 ([photo1, photo2] ! 1) =
       Resolved ''data:image/jpeg;base64,two.jpg''"
    by (simp add: resolve_url_def default_props_simps sample_env_def photo2_def)
  have h6: "\<forall>k<length [photo1, photo2].
         \<exists>u. resolve_url ?p sample_env k ([photo1, photo2] ! k) = Resolved u"
    by (simp add: resolve_url_def default_props_simps sample_env_def)
  from handleFiles_commits_batch_once [OF h1 h2 h3 h4 h2 h6]
  obtain newImages where
    "snapshots (fst (handleFiles ?p sample_env (Some [photo1, photo2]))) =
       [map Item (images ?p @ newImages)]"
    by blast
  then have snap: "snapshots (fst (handleFiles ?p sample_env (Some [photo1, photo2]))) =
     [[Item \<lparr>id' = ''img_1700000000000_4fzyo82mv'',
             url = ''data:image/jpeg;base64,one.jpg'', file' = Some photo1\<rparr>,
       Item \<lparr>id' = ''img_1700000000001_4fzyo82mv'',
             url = ''data:image/jpeg;base64,two.jpg'', file' = Some photo2\<rparr>]]"
    by (simp add: sample_run_two_photos sample_ids)
  show ?thesis by (intro conjI h1 h4 h3 r0 r1 snap)
qed


section \<open>Identifiers\<close>

lemma snapshots_show_errors: "snapshots (show_errors es @ xs) = snapshots xs"
  by (simp add: show_errors_def)

lemma handleFiles_next_images:
  "next_images p (fst (handleFiles p e files)) = map Item (images p) \<or>
   (\<exists>fileArray newImages. files = Some fileArray
      \<and> next_images p (fst (handleFiles p e files)) = map Item (images p @ newImages)
      \<and> map id' newImages = map (generateId e) [0..<length (filter (accepted p) fileArray)])"
proof (cases files)
  case None
  then show ?thesis by (simp add: handleFiles_def next_images_def)
next
  case (Some fileArray)
  show ?thesis
  proof (cases "fileArray = [] \<or> int (length (images p)) + int (length fileArray) > maxImages p")
    case True
    with Some show ?thesis by (auto simp: handleFiles_def next_images_def)
  next
    case False
    show ?thesis
    proof (cases "validate_all p fileArray [] []")
      case (Inl x)
      with Some False show ?thesis
        by (cases x) (simp add: handleFiles_def next_images_def)
    next
      case (Inr ev)
      obtain errors validFiles where ev: "ev = (errors, validFiles)" by (cases ev)
      from validate_all_Inr [of p fileArray "[]" "[]" errors validFiles] Inr ev
      have vf: "validFiles = filter (accepted p) fileArray" by simp
      show ?thesis
      proof (cases "validFiles = []")
        case True
        with Some False Inr ev show ?thesis
          by (simp add: handleFiles_def next_images_def snapshots_show_errors)
      next
        case ne: False
        show ?thesis
        proof (cases "process_files p e 0 validFiles []")
          case (Resolved new)
          from process_files_ids [OF this]
          have ids: "map id' new = map (generateId e) [0..<length validFiles]" by simp
          have "next_images p (fst (handleFiles p e files)) = map Item (images p @ new)"
            using Some False Inr ev ne Resolved
            by (simp add: handleFiles_def next_images_def snapshots_show_errors)
          with ids vf Some show ?thesis by blast
        next
          case (Rejected r)
          with Some False Inr ev ne show ?thesis
            by (simp add: handleFiles_def next_images_def snapshots_show_errors)
        next
          case Pending
          with Some False Inr ev ne show ?thesis
            by (simp add: handleFiles_def next_images_def snapshots_show_errors)
        qed
      qed
    qed
  qed
qed

lemma distinct_remove_at:
  assumes "distinct ys"
  shows "distinct (take i ys @ drop (Suc i) ys)"
proof -
  have "distinct (take i ys @ drop i ys)" using assms by simp
  then have disj: "set (take i ys) \<inter> set (drop i ys) = {}"
    by (simp only: distinct_append)
  have "set (drop (Suc i) ys) \<subseteq> set (drop i ys)"
    by (rule set_drop_subset_set_drop) simp
  with disj have "set (take i ys) \<inter> set (drop (Suc i) ys) = {}" by blast
  with assms show ?thesis by (simp add: distinct_take distinct_drop)
qed

text \<open>
  The operations on a list whose ids are pairwise distinct. Removing an image, promoting one
  to cover, reordering and committing a crop (at valid indices) leave the owner with a
  list whose ids are pairwise distinct: the records are records of the old list, each with
  the id it had, and a crop keeps every id at its position. Adding a batch keeps the old records in front and
  appends records whose ids are the ids that \<^verbatim>\<open>generateId\<close> made; the new list has
  pairwise distinct ids when the old ids followed by the generated ids are pairwise
  distinct, and nothing in the component makes them so: an id is made of the clock and nine
  base-36 digits of a random number, and no handler compares it with another id.
\<close>

lemma handlers_keep_ids_distinct:
  assumes "distinct (map id' (images p))"
  shows "(\<exists>L'. next_images p (handleRemoveImage p i) = map Item L'
            \<and> distinct (map id' L') \<and> set L' \<subseteq> set (images p))
     \<and> (i < length (images p) \<longrightarrow>
          (\<exists>L'. next_images p (handleSetAsCover p i) = map Item L'
            \<and> distinct (map id' L') \<and> mset L' = mset (images p)))
     \<and> (i < length (images p) \<and> j < length (images p) \<longrightarrow>
          (\<exists>L'. next_images p (handleDragEnd p (Some i) (Some j)) = map Item L'
            \<and> distinct (map id' L') \<and> mset L' = mset (images p)))
     \<and> (i < length (images p) \<longrightarrow>
          (\<exists>L'. next_images p (fst (handleCropComplete p e i c)) = map Item L'
            \<and> distinct (map id' L') \<and> map id' L' = map id' (images p)))
     \<and> (\<exists>L'. next_images p (fst (handleFiles p e (Some fileArray))) = map Item L'
            \<and> take (length (images p)) L' = images p
            \<and> (L' = images p
                 \<or> map id' (drop (length (images p)) L') =
                    map (generateId e) [0..<length (filter (accepted p) fileArray)])
            \<and> (distinct (map id' (images p)
                   @ map (generateId e) [0..<length (filter (accepted p) fileArray)]) \<longrightarrow>
                 distinct (map id' L')))"
proof -
  let ?L = "images p"
  let ?R = "take i ?L @ drop (Suc i) ?L"
  have dR: "distinct (map id' ?R)"
    using distinct_remove_at [OF assms, of i] by (simp add: take_map drop_map)
  have perm: "distinct (map id' L')" if "mset L' = mset ?L" for L'
  proof -
    from that have "mset (map id' L') = mset (map id' ?L)" by (metis mset_map)
    then show ?thesis using assms by (metis mset_eq_imp_distinct_iff)
  qed
  have remove: "\<exists>L'. next_images p (handleRemoveImage p i) = map Item L'
            \<and> distinct (map id' L') \<and> set L' \<subseteq> set ?L"
  proof -
    have "next_images p (handleRemoveImage p i) = map Item ?R"
      by (simp add: handleRemoveImage_def filter_index_neq next_images_def)
    moreover have "set ?R \<subseteq> set ?L"
      by (auto dest: in_set_takeD in_set_dropD)
    ultimately show ?thesis using dR by blast
  qed
  have cover: "i < length ?L \<longrightarrow>
          (\<exists>L'. next_images p (handleSetAsCover p i) = map Item L'
            \<and> distinct (map id' L') \<and> mset L' = mset ?L)"
  proof
    assume i: "i < length ?L"
    show "\<exists>L'. next_images p (handleSetAsCover p i) = map Item L'
            \<and> distinct (map id' L') \<and> mset L' = mset ?L"
    proof (cases "i = 0")
      case True
      then have "next_images p (handleSetAsCover p i) = map Item ?L"
        by (simp add: handleSetAsCover_def next_images_def)
      with assms show ?thesis by blast
    next
      case False
      with i have "next_images p (handleSetAsCover p i) = map Item (?L ! i # ?R)"
        by (simp add: handleSetAsCover_valid next_images_def)
      moreover have "mset (?L ! i # ?R) = mset ?L"
        using mset_remove_at [OF i] by simp
      ultimately show ?thesis using perm by blast
    qed
  qed
  have drag: "i < length ?L \<and> j < length ?L \<longrightarrow>
          (\<exists>L'. next_images p (handleDragEnd p (Some i) (Some j)) = map Item L'
            \<and> distinct (map id' L') \<and> mset L' = mset ?L)"
  proof
    assume ij: "i < length ?L \<and> j < length ?L"
    show "\<exists>L'. next_images p (handleDragEnd p (Some i) (Some j)) = map Item L'
            \<and> distinct (map id' L') \<and> mset L' = mset ?L"
    proof (cases "enableReorder p \<and> i \<noteq> j")
      case True
      with ij have "next_images p (handleDragEnd p (Some i) (Some j)) =
          map Item (take j ?R @ ?L ! i # drop j ?R)"
        by (simp add: handleDragEnd_valid next_images_def del: take_append drop_append)
      moreover have "mset (take j ?R @ ?L ! i # drop j ?R) = mset ?L"
        using mset_insert_at [of j ?R "?L ! i"] mset_remove_at [of i ?L] ij by simp
      ultimately show ?thesis using perm by blast
    next
      case False
      then have "snapshots (handleDragEnd p (Some i) (Some j)) = []"
        by (cases "enableReorder p") (auto simp: handleDragEnd_def)
      then have "next_images p (handleDragEnd p (Some i) (Some j)) = map Item ?L"
        by (simp add: next_images_def)
      with assms show ?thesis by blast
    qed
  qed
  have crop0: "i < length ?L \<longrightarrow>
          (\<exists>L'. next_images p (fst (handleCropComplete p e i c)) = map Item L'
            \<and> map id' L' = map id' ?L)"
  proof
    assume i: "i < length ?L"
    show "\<exists>L'. next_images p (fst (handleCropComplete p e i c)) = map Item L'
            \<and> map id' L' = map id' ?L"
    proof (cases "\<exists>u. crop_url p e i c = Inr (Resolved u)")
      case True
      then obtain u where "crop_url p e i c = Inr (Resolved u)" by blast
      with i have "next_images p (fst (handleCropComplete p e i c)) =
          map Item (?L[i := (?L ! i)\<lparr>url := u\<rparr>])"
        by (simp add: handleCropComplete_def commit_crop_valid next_images_def)
      moreover have "map id' (?L[i := (?L ! i)\<lparr>url := u\<rparr>]) = map id' ?L"
        using i by (simp add: map_update list_update_same_conv)
      ultimately show ?thesis by blast
    next
      case False
      then have "fst (handleCropComplete p e i c) = []"
        by (auto simp: handleCropComplete_def split: sum.split outcome.split exn.split)
      then have "next_images p (fst (handleCropComplete p e i c)) = map Item ?L"
        by (simp add: next_images_def)
      then show ?thesis by blast
    qed
  qed
  have crop: "i < length ?L \<longrightarrow>
          (\<exists>L'. next_images p (fst (handleCropComplete p e i c)) = map Item L'
            \<and> distinct (map id' L') \<and> map id' L' = map id' ?L)"
  proof
    assume "i < length ?L"
    with crop0 obtain L' where
      "next_images p (fst (handleCropComplete p e i c)) = map Item L'"
      "map id' L' = map id' ?L"
      by blast
    moreover from this assms have "distinct (map id' L')" by simp
    ultimately show "\<exists>L'. next_images p (fst (handleCropComplete p e i c)) = map Item L'
            \<and> distinct (map id' L') \<and> map id' L' = map id' ?L"
      by blast
  qed
  have add: "\<exists>L'. next_images p (fst (handleFiles p e (Some fileArray))) = map Item L'
            \<and> take (length ?L) L' = ?L
            \<and> (L' = ?L
                 \<or> map id' (drop (length ?L) L') =
                    map (generateId e) [0..<length (filter (accepted p) fileArray)])
            \<and> (distinct (map id' ?L
                   @ map (generateId e) [0..<length (filter (accepted p) fileArray)]) \<longrightarrow>
                 distinct (map id' L'))"
  proof -
    from handleFiles_next_images [of p e "Some fileArray"] show ?thesis
    proof
      assume "next_images p (fst (handleFiles p e (Some fileArray))) = map Item ?L"
      with assms show ?thesis by auto
    next
      assume "\<exists>fa newImages. Some fileArray = Some fa
        \<and> next_images p (fst (handleFiles p e (Some fileArray))) = map Item (?L @ newImages)
        \<and> map id' newImages = map (generateId e) [0..<length (filter (accepted p) fa)]"
      then obtain newImages where
        n: "next_images p (fst (handleFiles p e (Some fileArray))) = map Item (?L @ newImages)"
        and ids: "map id' newImages = map (generateId e) [0..<length (filter (accepted p) fileArray)]"
        by auto
      have 1: "take (length ?L) (?L @ newImages) = ?L" by simp
      have 2: "map id' (drop (length ?L) (?L @ newImages)) =
          map (generateId e) [0..<length (filter (accepted p) fileArray)]"
        using ids by simp
      have 3: "distinct (map id' ?L
                   @ map (generateId e) [0..<length (filter (accepted p) fileArray)]) \<longrightarrow>
                 distinct (map id' (?L @ newImages))"
        using ids by simp
      from n 1 2 3 show ?thesis by blast
    qed
  qed
  from remove cover drag crop add show ?thesis by blast
qed

lemma handlers_keep_ids_distinct_sample:
  "distinct (map id' (images (default_props [itemA, itemB, itemC])))
   \<and> distinct (map id' (images (default_props [itemA, itemB, itemC]))
        @ map (generateId sample_env)
            [0..<length (filter (accepted (default_props [itemA, itemB, itemC])) [photo1, photo2])])
   \<and> (\<exists>L'. next_images (default_props [itemA, itemB, itemC])
              (fst (handleFiles (default_props [itemA, itemB, itemC]) sample_env
                     (Some [photo1, photo2]))) = map Item L'
          \<and> distinct (map id' L') \<and> take 3 L' = [itemA, itemB, itemC])"
proof -
  let ?p = "default_props [itemA, itemB, itemC]"
  have ids: "id' itemA = ''a''" "id' itemB = ''b''" "id' itemC = ''c''"
    by (simp_all add: itemA_def itemB_def itemC_def)
  have h: "distinct (map id' (images ?p))" by (simp add: default_props_simps ids)
  have acc: "filter (accepted ?p) [photo1, photo2] = [photo1, photo2]"
    by (simp add: accepted_def sample_verdicts default_props_simps)
  have upt: "[0..<2] = [0, Suc 0]" by (simp add: upt_rec)
  have len: "length (filter (accepted ?p) [photo1, photo2]) = 2"
    by (subst acc) simp
  have g: "distinct (map id' (images ?p)
        @ map (generateId sample_env) [0..<length (filter (accepted ?p) [photo1, photo2])])"
    unfolding len upt by (simp add: default_props_simps ids sample_ids)
  from handlers_keep_ids_distinct [OF h, where e = sample_env and fileArray = "[photo1, photo2]"] g
  have "\<exists>L'. next_images ?p (fst (handleFiles ?p sample_env (Some [photo1, photo2]))) = map Item L'
          \<and> distinct (map id' L') \<and> take (length (images ?p)) L' = images ?p"
    by blast
  then have x: "\<exists>L'. next_images ?p (fst (handleFiles ?p sample_env (Some [photo1, photo2]))) = map Item L'
          \<and> distinct (map id' L') \<and> take 3 L' = [itemA, itemB, itemC]"
    by (simp add: default_props_simps numeral_3_eq_3)
  show ?thesis by (intro conjI h g x)
qed

text \<open>
  Claim C7. The ids of the records of the list are pairwise distinct at all times: the
  interface calls \<open>id\<close> the unique identifier of the image (line 276), the component
  generates it at intake with \<^verbatim>\<open>generateId\<close>, which it calls the unique id (line 380),
  and the grid uses it as the key of a card (line 682). Adding a batch breaks this. The list
  is empty, so its ids are pairwise distinct; two JPEG files are selected and accepted; both
  calls of \<^verbatim>\<open>generateId\<close> read the same millisecond from the clock, and
  \<^verbatim>\<open>Math.random()\<close> gives two different numbers whose base-36 digits agree in the
  nine that \<^verbatim>\<open>substr(2, 9)\<close> keeps. The list handed to \<^verbatim>\<open>onChange\<close> then holds
  two records with the same id.
\<close>

theorem generated_ids_can_collide:
  "distinct (map id' (images (default_props [])))
   \<and> next_images (default_props [])
        (fst (handleFiles (default_props []) same_tick_env (Some [photo1, photo2]))) =
      [Item \<lparr>id' = ''img_1700000000000_4fzyo82mv'',
              url = ''data:image/jpeg;base64,one.jpg'', file' = Some photo1\<rparr>,
       Item \<lparr>id' = ''img_1700000000000_4fzyo82mv'',
              url = ''data:image/jpeg;base64,two.jpg'', file' = Some photo2\<rparr>]
   \<and> \<not> distinct (map id'
        [\<lparr>id' = ''img_1700000000000_4fzyo82mv'',
           url = ''data:image/jpeg;base64,one.jpg'', file' = Some photo1\<rparr>,
         \<lparr>id' = ''img_1700000000000_4fzyo82mv'',
           url = ''data:image/jpeg;base64,two.jpg'', file' = Some photo2\<rparr>])"
proof -
  have e: "fileToDataUrl same_tick_env = fileToDataUrl sample_env"
    by (simp add: same_tick_env_def sample_env_def)
  have "length ([] :: ImageItem list) \<le> 8" by simp
  from sample_run_two_photos [OF this e] show ?thesis
    by (simp add: next_images_def sample_ids default_props_simps)
qed

end
